theory Spec2Isabelle
  imports Main "HOL-Library.Word" "HOL-Library.Monad_Syntax"
begin

unbundle bit_operations_syntax

section \<open>C memory, strings and fixed-width counters\<close>

text \<open>
  The engine of \<^verbatim>\<open>embedded_cli.c\<close> works on byte arrays carved out of one arena.
  An array is a \<^typ>\<open>char list\<close> of fixed length; a pointer into it is an offset.
  Every function that could read or write outside an array, dereference a null pointer or
  divide by zero returns an \<^typ>\<open>'a option\<close>: \<^term>\<open>None\<close> stands for
  "no defined result" (undefined behaviour of the C program, or a loop that never ends).
  A nullable pointer is an \<^typ>\<open>nat option\<close> as well, with \<^term>\<open>None\<close> for
  \<^verbatim>\<open>NULL\<close>. The type \<^verbatim>\<open>int\<close> and \<^verbatim>\<open>size_t\<close> are taken to be wide
  enough for every index into these arrays; \<^verbatim>\<open>uint16_t\<close> and \<^verbatim>\<open>uint8_t\<close> values
  wrap around as written in the source.
\<close>

abbreviation NUL :: char where "NUL \<equiv> CHR 0x00"

definition u16 :: "nat \<Rightarrow> nat" where
  "u16 n = n mod 65536"

definition rd :: "'a list \<Rightarrow> nat \<Rightarrow> 'a option" where
  "rd a k = (if k < length a then Some (a ! k) else None)"

definition wr :: "'a list \<Rightarrow> nat \<Rightarrow> 'a \<Rightarrow> 'a list option" where
  "wr a k v = (if k < length a then Some (a[k := v]) else None)"

text \<open>The string that starts at offset \<open>p\<close> of a block: the bytes before the first NUL.\<close>

definition c_str :: "string \<Rightarrow> nat \<Rightarrow> string option" where
  "c_str mem p =
     (if NUL \<in> set (drop p mem) then Some (takeWhile (\<lambda>c. c \<noteq> NUL) (drop p mem)) else None)"

definition strlen :: "string \<Rightarrow> nat \<Rightarrow> nat option" where
  "strlen mem p = map_option length (c_str mem p)"

section \<open>Tokenizer\<close>

text \<open>
  \<^verbatim>\<open>embeddedCliTokenizeArgs(char *args)\<close>. The state of its loop: the block that
  \<^verbatim>\<open>args\<close> points into, the read index \<^verbatim>\<open>i\<close>, the write index
  \<^verbatim>\<open>insertPos\<close> (both relative to \<^verbatim>\<open>args\<close>) and the two mode flags.
\<close>

record tok_state =
  t_args :: string
  t_i :: nat
  t_insertPos :: nat
  t_quotesEnabled :: bool
  t_escapeActivated :: bool

definition separators :: string where
  "separators = '' ''"

text \<open>\<^verbatim>\<open>strchr(s, c) != NULL\<close>: the terminating NUL of \<open>s\<close> is found as well.\<close>

definition strchr_found :: "string \<Rightarrow> char \<Rightarrow> bool" where
  "strchr_found s c = (c \<in> set s \<or> c = NUL)"

text \<open>
  The tail of the loop body:
  \<^verbatim>\<open>if (currentChar != '\0' || (insertPos > 0 && args[insertPos - 1] != '\0'))
    { args[insertPos] = currentChar; ++insertPos; }\<close>
\<close>

definition tok_emit :: "nat \<Rightarrow> char \<Rightarrow> tok_state \<Rightarrow> tok_state option" where
  "tok_emit base c s = do {
     keep \<leftarrow> (if c \<noteq> NUL then Some True
              else if 0 < t_insertPos s
                then do { p \<leftarrow> rd (t_args s) (base + t_insertPos s - 1); Some (p \<noteq> NUL) }
                else Some False);
     if keep
     then do { a \<leftarrow> wr (t_args s) (base + t_insertPos s) c;
               Some (s\<lparr>t_args := a, t_insertPos := t_insertPos s + 1\<rparr>) }
     else Some s }"

text \<open>One iteration of the loop, for the byte \<open>c\<close> just read at index \<open>i\<close>.\<close>

definition tok_step :: "nat \<Rightarrow> char \<Rightarrow> tok_state \<Rightarrow> tok_state option" where
  "tok_step base c s0 =
     (let s = s0\<lparr>t_i := t_i s0 + 1\<rparr> in
      if t_escapeActivated s then tok_emit base c (s\<lparr>t_escapeActivated := False\<rparr>)
      else if c = CHR 0x5C then Some (s\<lparr>t_escapeActivated := True\<rparr>)
      else if c = CHR 0x22
        then tok_emit base NUL (s\<lparr>t_quotesEnabled := \<not> t_quotesEnabled s\<rparr>)
      else if \<not> t_quotesEnabled s \<and> strchr_found separators c then tok_emit base NUL s
      else tok_emit base c s)"

lemma tok_emit_frame:
  "tok_emit base c s = Some s' \<Longrightarrow>
     length (t_args s') = length (t_args s) \<and> t_i s' = t_i s"
  by (auto simp: tok_emit_def wr_def split: if_splits bind_splits)

lemma tok_step_frame:
  "tok_step base c s = Some s' \<Longrightarrow>
     length (t_args s') = length (t_args s) \<and> t_i s' = t_i s + 1"
  by (auto simp: tok_step_def Let_def split: if_splits dest!: tok_emit_frame)

function tok_loop :: "nat \<Rightarrow> tok_state \<Rightarrow> tok_state option" where
  "tok_loop base s =
     (case rd (t_args s) (base + t_i s) of
        None \<Rightarrow> None
      | Some c \<Rightarrow>
          if c = NUL then Some s
          else (case tok_step base c s of None \<Rightarrow> None | Some s' \<Rightarrow> tok_loop base s'))"
  by pat_completeness auto
termination
proof (relation "measure (\<lambda>(base, s). length (t_args s) - (base + t_i s))")
  show "wf (measure (\<lambda>(base, s). length (t_args s) - (base + t_i s)))"
    by simp
next
  fix base :: nat and s s' :: tok_state and c :: char
  assume r: "rd (t_args s) (base + t_i s) = Some c" and st: "tok_step base c s = Some s'"
  from r have "base + t_i s < length (t_args s)"
    by (simp add: rd_def split: if_splits)
  with tok_step_frame [OF st]
  show "((base, s'), (base, s)) \<in> measure (\<lambda>(base, s). length (t_args s) - (base + t_i s))"
    by simp
qed

declare tok_loop.simps [simp del]

definition tok_init :: "string \<Rightarrow> tok_state" where
  "tok_init mem = \<lparr>t_args = mem, t_i = 0, t_insertPos = 0,
                   t_quotesEnabled = False, t_escapeActivated = False\<rparr>"

text \<open>
  The whole function. \<open>mem\<close> is the block and \<open>args\<close> the pointer into it
  (\<^term>\<open>None\<close> for \<^verbatim>\<open>NULL\<close>, on which the function returns at once).
\<close>

definition embeddedCliTokenizeArgs :: "string \<Rightarrow> nat option \<Rightarrow> string option" where
  "embeddedCliTokenizeArgs mem args =
     (case args of
        None \<Rightarrow> Some mem
      | Some base \<Rightarrow> do {
          s \<leftarrow> tok_loop base (tok_init mem);
          a \<leftarrow> wr (t_args s) (base + t_insertPos s) NUL;
          wr a (base + t_insertPos s + 1) NUL })"

text \<open>
  The states the loop of the tokenizer goes through, from the initial one: a state is left
  by one iteration when the byte under the read index is not NUL.
\<close>

inductive tok_reach :: "nat \<Rightarrow> string \<Rightarrow> tok_state \<Rightarrow> bool" for base :: nat and mem :: string where
  tok_reach_init: "tok_reach base mem (tok_init mem)"
| tok_reach_step: "tok_reach base mem s \<Longrightarrow> rd (t_args s) (base + t_i s) = Some c \<Longrightarrow>
     c \<noteq> NUL \<Longrightarrow> tok_step base c s = Some s' \<Longrightarrow> tok_reach base mem s'"

section \<open>Token accessors\<close>

text \<open>
  The accessors only read; their argument is the memory from the pointer
  \<^verbatim>\<open>tokenizedStr\<close> to the end of its block, or \<^term>\<open>None\<close> for \<^verbatim>\<open>NULL\<close>.
\<close>

definition CLI_TOKEN_NPOS :: nat where
  "CLI_TOKEN_NPOS = 0xffff"

text \<open>
  The loop of \<^verbatim>\<open>getTokenPosition\<close>; \<^verbatim>\<open>i\<close> and \<^verbatim>\<open>tokenCount\<close> are
  \<^verbatim>\<open>uint16_t\<close>. It returns the index at which the loop is left.
\<close>

partial_function (option) getTokenPosition_loop :: "string \<Rightarrow> nat \<Rightarrow> nat \<Rightarrow> nat \<Rightarrow> nat option" where
  "getTokenPosition_loop s pos k tokenCount =
     (if tokenCount = pos then Some k
      else do {
        c \<leftarrow> rd s k;
        if c = NUL
        then do {
          c1 \<leftarrow> rd s (k + 1);
          if c1 = NUL then Some k
          else getTokenPosition_loop s pos (u16 (k + 1)) (u16 (tokenCount + 1)) }
        else getTokenPosition_loop s pos (u16 (k + 1)) tokenCount })"

declare getTokenPosition_loop.simps [code]

definition getTokenPosition :: "string option \<Rightarrow> nat \<Rightarrow> nat option" where
  "getTokenPosition tokenizedStr pos =
     (case tokenizedStr of
        None \<Rightarrow> Some CLI_TOKEN_NPOS
      | Some s \<Rightarrow>
          if pos = 0 then Some CLI_TOKEN_NPOS
          else do {
            k \<leftarrow> getTokenPosition_loop s pos 0 1;
            c \<leftarrow> rd s k;
            if c \<noteq> NUL then Some k else Some CLI_TOKEN_NPOS })"

text \<open>
  \<^verbatim>\<open>embeddedCliGetToken\<close> and \<^verbatim>\<open>embeddedCliGetTokenVariable\<close> have the same body;
  the result is the offset of the token from \<^verbatim>\<open>tokenizedStr\<close>, or \<^verbatim>\<open>NULL\<close>.
\<close>

definition embeddedCliGetToken :: "string option \<Rightarrow> nat \<Rightarrow> nat option option" where
  "embeddedCliGetToken tokenizedStr pos = do {
     k \<leftarrow> getTokenPosition tokenizedStr pos;
     if k \<noteq> CLI_TOKEN_NPOS then Some (Some k) else Some None }"

definition embeddedCliGetTokenVariable :: "string option \<Rightarrow> nat \<Rightarrow> nat option option" where
  "embeddedCliGetTokenVariable tokenizedStr pos = embeddedCliGetToken tokenizedStr pos"

function GetTokenCount_loop :: "string \<Rightarrow> nat \<Rightarrow> nat \<Rightarrow> nat option" where
  "GetTokenCount_loop s k tokenCount =
     (case rd s k of
        None \<Rightarrow> None
      | Some c \<Rightarrow>
          if c = NUL
          then (case rd s (k + 1) of
                  None \<Rightarrow> None
                | Some c1 \<Rightarrow>
                    if c1 = NUL then Some tokenCount
                    else GetTokenCount_loop s (k + 1) (u16 (tokenCount + 1)))
          else GetTokenCount_loop s (k + 1) tokenCount)"
  by pat_completeness auto
termination
  by (relation "measure (\<lambda>(s, k, tokenCount). length s - k)")
     (auto simp: rd_def split: if_splits)

declare GetTokenCount_loop.simps [simp del]

definition embeddedCliGetTokenCount :: "string option \<Rightarrow> nat option" where
  "embeddedCliGetTokenCount tokenizedStr =
     (case tokenizedStr of
        None \<Rightarrow> Some 0
      | Some s \<Rightarrow> do {
          c \<leftarrow> rd s 0;
          if c = NUL then Some 0 else GetTokenCount_loop s 0 1 })"

text \<open>The token at position \<open>pos\<close> as a string, when there is one.\<close>

definition token_at :: "string \<Rightarrow> nat \<Rightarrow> string option" where
  "token_at s pos =
     (case embeddedCliGetToken (Some s) pos of
        Some (Some k) \<Rightarrow> c_str s k
      | _ \<Rightarrow> None)"

text \<open>The tokens of a tokenized string, read through the accessors.\<close>

definition token_list :: "string \<Rightarrow> string list option" where
  "token_list s = do {
     n \<leftarrow> embeddedCliGetTokenCount (Some s);
     those (map (token_at s) [1..<n + 1]) }"

section \<open>Flag words\<close>

type_synonym u8 = "8 word"

definition IS_FLAG_SET :: "u8 \<Rightarrow> u8 \<Rightarrow> bool" where
  "IS_FLAG_SET flgs flag = (flgs AND flag \<noteq> 0)"

definition SET_FLAG :: "u8 \<Rightarrow> u8 \<Rightarrow> u8" where
  "SET_FLAG flgs flag = flgs OR flag"

definition UNSET_U8FLAG :: "u8 \<Rightarrow> u8 \<Rightarrow> u8" where
  "UNSET_U8FLAG flgs flag = flgs AND NOT flag"

definition BINDING_FLAG_AUTOCOMPLETE :: u8 where "BINDING_FLAG_AUTOCOMPLETE = 1"
definition CLI_FLAG_OVERFLOW :: u8 where "CLI_FLAG_OVERFLOW = 0x01"
definition CLI_FLAG_INIT_COMPLETE :: u8 where "CLI_FLAG_INIT_COMPLETE = 0x02"
definition CLI_FLAG_ALLOCATED :: u8 where "CLI_FLAG_ALLOCATED = 0x04"
definition CLI_FLAG_ESCAPE_MODE :: u8 where "CLI_FLAG_ESCAPE_MODE = 0x08"
definition CLI_FLAG_DIRECT_PRINT :: u8 where "CLI_FLAG_DIRECT_PRINT = 0x10"
definition CLI_FLAG_AUTOCOMPLETE_ENABLED :: u8 where "CLI_FLAG_AUTOCOMPLETE_ENABLED = 0x20"

section \<open>Ring buffer\<close>

text \<open>
  \<^verbatim>\<open>struct FifoBuf\<close>. An array and the field that holds its size are one list in the
  model: \<^verbatim>\<open>embeddedCliNew\<close> sets the size fields once, to the sizes of the arrays it
  carves out, and nothing changes them afterwards. So \<^verbatim>\<open>buffer->size\<close> is the length of
  \<open>fbuf\<close>;
  \<open>ffront\<close> and \<open>fback\<close> are the fields \<^verbatim>\<open>front\<close> and \<^verbatim>\<open>back\<close>.
\<close>

record FifoBuf =
  fbuf :: string
  ffront :: nat
  fback :: nat

definition fifo_size :: "FifoBuf \<Rightarrow> nat" where
  "fifo_size b = length (fbuf b)"

text \<open>
  The subtraction of \<^verbatim>\<open>fifoBufAvailable\<close> is done on \<^verbatim>\<open>int\<close> and cast to
  \<^verbatim>\<open>uint16_t\<close>.
\<close>

definition fifoBufAvailable :: "FifoBuf \<Rightarrow> nat" where
  "fifoBufAvailable b =
     (if fback b \<ge> ffront b then u16 (fback b - ffront b)
      else nat ((int (fifo_size b) - int (ffront b) + int (fback b)) mod 65536))"

definition fifoBufPop :: "FifoBuf \<Rightarrow> (char \<times> FifoBuf) option" where
  "fifoBufPop b =
     (if ffront b \<noteq> fback b
      then do {
        a \<leftarrow> rd (fbuf b) (ffront b);
        f \<leftarrow> (if fifo_size b = 0 then None else Some (u16 (ffront b + 1) mod fifo_size b));
        Some (a, b\<lparr>ffront := f\<rparr>) }
      else Some (NUL, b))"

definition fifoBufPush :: "FifoBuf \<Rightarrow> char \<Rightarrow> (bool \<times> FifoBuf) option" where
  "fifoBufPush b a = do {
     newBack \<leftarrow> (if fifo_size b = 0 then None else Some (u16 (fback b + 1) mod fifo_size b));
     if newBack \<noteq> ffront b
     then do {
       m \<leftarrow> wr (fbuf b) (fback b) a;
       Some (True, b\<lparr>fbuf := m, fback := newBack\<rparr>) }
     else Some (False, b) }"

section \<open>History\<close>

text \<open>Reading and writing a run of bytes; \<^verbatim>\<open>memmove\<close> inside one block.\<close>

definition mem_read :: "string \<Rightarrow> nat \<Rightarrow> nat \<Rightarrow> string option" where
  "mem_read mem p n = (if p + n \<le> length mem then Some (take n (drop p mem)) else None)"

definition mem_write :: "string \<Rightarrow> nat \<Rightarrow> string \<Rightarrow> string option" where
  "mem_write mem p bytes =
     (if p + length bytes \<le> length mem
      then Some (take p mem @ bytes @ drop (p + length bytes) mem) else None)"

definition memmove :: "string \<Rightarrow> nat \<Rightarrow> nat \<Rightarrow> nat \<Rightarrow> string option" where
  "memmove mem dst src n = do { bytes \<leftarrow> mem_read mem src n; mem_write mem dst bytes }"

text \<open>
  \<^verbatim>\<open>struct CliHistory\<close>; \<^verbatim>\<open>bufferSize\<close> is the length of \<open>buf\<close>. A string
  argument of the C functions (\<^verbatim>\<open>const char *str\<close>) is the string it points to.
\<close>

record CliHistory =
  buf :: string
  current :: nat
  itemsCount :: nat

definition bufferSize :: "CliHistory \<Rightarrow> nat" where
  "bufferSize h = length (buf h)"

definition historyGet :: "CliHistory \<Rightarrow> nat \<Rightarrow> nat option option" where
  "historyGet h item =
     (if item = 0 \<or> item > itemsCount h then Some None
      else embeddedCliGetToken (Some (buf h)) item)"

text \<open>
  The search loop of \<^verbatim>\<open>historyRemove\<close>, with its \<^verbatim>\<open>uint16_t itemPosition\<close>. It
  returns \<^verbatim>\<open>item\<close> and \<^verbatim>\<open>itemPosition\<close>. \<^verbatim>\<open>strcmp\<close> reads from \<^verbatim>\<open>item\<close>,
  which must not be \<^verbatim>\<open>NULL\<close>.
\<close>

partial_function (option) historyRemove_loop ::
  "CliHistory \<Rightarrow> string \<Rightarrow> nat \<Rightarrow> (nat option \<times> nat) option" where
  "historyRemove_loop h str itemPosition =
     (if itemPosition \<le> itemsCount h
      then do {
        item \<leftarrow> embeddedCliGetTokenVariable (Some (buf h)) itemPosition;
        p \<leftarrow> item;
        s \<leftarrow> c_str (buf h) p;
        if s = str then Some (Some p, itemPosition)
        else historyRemove_loop h str (u16 (itemPosition + 1)) }
      else Some (None, itemPosition))"

declare historyRemove_loop.simps [code]

definition historyRemove :: "CliHistory \<Rightarrow> string option \<Rightarrow> CliHistory option" where
  "historyRemove h str =
     (case str of
        None \<Rightarrow> Some h
      | Some s \<Rightarrow>
          if itemsCount h = 0 then Some h
          else do {
            (item, itemPosition) \<leftarrow> historyRemove_loop h s 1;
            case item of
              None \<Rightarrow> Some h
            | Some p \<Rightarrow>
                let h1 = h\<lparr>itemsCount := itemsCount h - 1\<rparr> in
                if itemPosition = itemsCount h1 + 1 then Some h1
                else do {
                  len \<leftarrow> strlen (buf h1) p;
                  m \<leftarrow> memmove (buf h1) p (p + len + 1) (bufferSize h1 - (p + len + 1));
                  Some (h1\<lparr>buf := m\<rparr>) } })"

text \<open>
  The eviction loop of \<^verbatim>\<open>historyPut\<close>. It returns the history and \<^verbatim>\<open>usedSize\<close>,
  which the source leaves uninitialised until the body runs and reads only when the loop
  was left by \<^verbatim>\<open>break\<close>. \<^verbatim>\<open>strlen(item)\<close> reads from \<^verbatim>\<open>item\<close>. When it
  returns, the string ends inside the buffer, so \<^verbatim>\<open>bufferSize - usedSize\<close> does not wrap.
\<close>

function historyPut_evict :: "CliHistory \<Rightarrow> nat \<Rightarrow> nat \<Rightarrow> (CliHistory \<times> nat) option" where
  "historyPut_evict h len usedSize =
     (if itemsCount h > 0
      then (case historyGet h (itemsCount h) of
              None \<Rightarrow> None
            | Some None \<Rightarrow> None
            | Some (Some p) \<Rightarrow>
                (case strlen (buf h) p of
                   None \<Rightarrow> None
                 | Some itemLen \<Rightarrow>
                     if bufferSize h - (p + itemLen + 1) \<ge> len + 1
                     then Some (h, p + itemLen + 1)
                     else historyPut_evict (h\<lparr>itemsCount := itemsCount h - 1\<rparr>) len
                            (p + itemLen + 1)))
      else Some (h, usedSize))"
  by pat_completeness auto
termination
  by (relation "measure (\<lambda>(h, len, usedSize). itemsCount h)") auto

declare historyPut_evict.simps [simp del]

definition historyPut :: "CliHistory \<Rightarrow> string \<Rightarrow> (bool \<times> CliHistory) option" where
  "historyPut h str =
     (let len = length str in
      if bufferSize h < len + 1 then Some (False, h)
      else do {
        h1 \<leftarrow> historyRemove h (Some str);
        (h2, usedSize) \<leftarrow> historyPut_evict h1 len 0;
        m1 \<leftarrow> (if itemsCount h2 > 0 then memmove (buf h2) (len + 1) 0 usedSize
               else Some (buf h2));
        m2 \<leftarrow> mem_write m1 0 (str @ [NUL]);
        Some (True, h2\<lparr>buf := m2, itemsCount := u16 (itemsCount h2 + 1)\<rparr>) })"

text \<open>The item at a 1-based position of the history, as a string.\<close>

definition history_item :: "CliHistory \<Rightarrow> nat \<Rightarrow> string option" where
  "history_item h item =
     (case historyGet h item of
        Some (Some p) \<Rightarrow> c_str (buf h) p
      | _ \<Rightarrow> None)"

section \<open>Bindings and the engine\<close>

abbreviation BS :: char where "BS \<equiv> CHR 0x08"
abbreviation TAB :: char where "TAB \<equiv> CHR 0x09"
abbreviation LF :: char where "LF \<equiv> CHR 0x0A"
abbreviation CR :: char where "CR \<equiv> CHR 0x0D"
abbreviation ESC :: char where "ESC \<equiv> CHR 0x1B"
abbreviation SP :: char where "SP \<equiv> CHR 0x20"
abbreviation DEL :: char where "DEL \<equiv> CHR 0x7F"

definition lineBreak :: string where
  "lineBreak = [CR, LF]"

text \<open>
  \<^verbatim>\<open>CliCommandBinding\<close>, as \<^verbatim>\<open>initInternalBindings\<close> and the dispatcher use it. The
  handler \<^verbatim>\<open>binding\<close> is a host function, possibly \<^verbatim>\<open>NULL\<close>: the model takes it
  as a function from the argument memory it is given (from \<^verbatim>\<open>cmdArgs\<close> to the end of
  the command buffer, or \<^verbatim>\<open>NULL\<close>) to its result code. The opaque \<^verbatim>\<open>handle\<close>
  and \<^verbatim>\<open>context\<close> pointers, which the engine only passes on, are left out, and so is
  whatever the host function does besides returning. \<open>help_text\<close> is the field
  \<^verbatim>\<open>help\<close>.
\<close>

record CliCommandBinding =
  name :: string
  help_text :: "string option"
  tokenizeArgs :: bool
  binding :: "(string option \<Rightarrow> u8) option"

record AutocompletedCommand =
  firstCandidate :: "string option"
  autocompletedLen :: nat
  candidateCount :: nat

text \<open>
  The calls the engine makes through the function pointers of the host, in order:
  the two output hooks, a handler (with the index of its binding and the argument memory),
  \<^verbatim>\<open>postCommand\<close> and \<^verbatim>\<open>onCommand\<close> (with the name and the argument memory).
\<close>

datatype call =
    WriteChar char
  | WriteString string
  | Handler nat "string option"
  | PostCommand u8
  | OnCommand string "string option"

text \<open>
  \<^verbatim>\<open>EmbeddedCliImpl\<close> and the hooks of \<^verbatim>\<open>EmbeddedCli\<close>, which owns it, in one
  record. \<^verbatim>\<open>cmdMaxSize\<close> is the length of \<open>cmdBuffer\<close> and \<^verbatim>\<open>bindingsCount\<close> the
  length of \<open>bindings\<close>, the populated part of the bindings array. A hook is
  \<^term>\<open>True\<close> when its pointer is not \<^verbatim>\<open>NULL\<close>; \<open>calls\<close> records what was called.
\<close>

record EmbeddedCli =
  invitation :: string
  history :: CliHistory
  rxBuffer :: FifoBuf
  cmdBuffer :: string
  cmdSize :: nat
  bindings :: "CliCommandBinding list"
  bindingsFlags :: "u8 list"
  maxBindingsCount :: nat
  inputLineLength :: nat
  lastChar :: char
  flags :: u8
  writeChar :: bool
  writeString :: bool
  onCommand :: bool
  postCommand :: bool
  calls :: "call list"

definition cmdMaxSize :: "EmbeddedCli \<Rightarrow> nat" where
  "cmdMaxSize cli = length (cmdBuffer cli)"

definition bindingsCount :: "EmbeddedCli \<Rightarrow> nat" where
  "bindingsCount cli = length (bindings cli)"

definition embeddedCliAddBinding :: "EmbeddedCli \<Rightarrow> CliCommandBinding \<Rightarrow> bool \<times> EmbeddedCli" where
  "embeddedCliAddBinding cli b =
     (if bindingsCount cli = maxBindingsCount cli then (False, cli)
      else (True, cli\<lparr>bindings := bindings cli @ [b]\<rparr>))"

subsection \<open>Output\<close>

text \<open>\<^verbatim>\<open>cli->writeChar(cli, c)\<close>: the pointer must not be \<^verbatim>\<open>NULL\<close>.\<close>

definition write_char :: "EmbeddedCli \<Rightarrow> char \<Rightarrow> EmbeddedCli option" where
  "write_char cli c =
     (if writeChar cli then Some (cli\<lparr>calls := calls cli @ [WriteChar c]\<rparr>) else None)"

text \<open>A loop that calls \<^verbatim>\<open>writeChar\<close> on each byte of \<open>cs\<close>, in order.\<close>

definition write_chars :: "EmbeddedCli \<Rightarrow> string \<Rightarrow> EmbeddedCli option" where
  "write_chars cli cs =
     (if cs = [] then Some cli
      else if writeChar cli then Some (cli\<lparr>calls := calls cli @ map WriteChar cs\<rparr>)
      else None)"

definition writeToOutput :: "EmbeddedCli \<Rightarrow> string \<Rightarrow> EmbeddedCli option" where
  "writeToOutput cli str =
     (if writeString cli then Some (cli\<lparr>calls := calls cli @ [WriteString str]\<rparr>)
      else write_chars cli str)"

definition clearCurrentLine :: "EmbeddedCli \<Rightarrow> EmbeddedCli option" where
  "clearCurrentLine cli = do {
     c1 \<leftarrow> write_char cli CR;
     c2 \<leftarrow> write_chars c1 (replicate (inputLineLength cli + length (invitation cli)) SP);
     c3 \<leftarrow> write_char c2 CR;
     Some (c3\<lparr>inputLineLength := 0\<rparr>) }"

definition onUnknownCommand :: "EmbeddedCli \<Rightarrow> string \<Rightarrow> EmbeddedCli option" where
  "onUnknownCommand cli nm = do {
     c1 \<leftarrow> writeToOutput cli (''Unknown command: '' @ [CHR 0x22]);
     c2 \<leftarrow> writeToOutput c1 nm;
     c3 \<leftarrow> writeToOutput c2
            ([CHR 0x22] @ ''. Write '' @ [CHR 0x22] @ ''help'' @ [CHR 0x22]
             @ '' for a list of available commands'');
     writeToOutput c3 lineBreak }"

subsection \<open>Autocompletion\<close>

text \<open>Reading index \<open>j\<close> of a C string: its bytes, then the terminating NUL.\<close>

definition str_rd :: "string \<Rightarrow> nat \<Rightarrow> char option" where
  "str_rd s j = rd (s @ [NUL]) j"

text \<open>
  The inner loop of \<^verbatim>\<open>getAutocompletedCommand\<close>:
  \<^verbatim>\<open>for (size_t j = impl->cmdSize; j < cmd.autocompletedLen; ++j)
    if (cmd.firstCandidate[j] != name[j]) { cmd.autocompletedLen = (uint16_t) j; break; }\<close>
\<close>

function autocomplete_lcp :: "string option \<Rightarrow> string \<Rightarrow> nat \<Rightarrow> nat \<Rightarrow> nat option" where
  "autocomplete_lcp first nm j alen =
     (if j < alen
      then (case first of
              None \<Rightarrow> None
            | Some f \<Rightarrow>
                (case str_rd f j of
                   None \<Rightarrow> None
                 | Some a \<Rightarrow>
                     (case str_rd nm j of
                        None \<Rightarrow> None
                      | Some b \<Rightarrow>
                          if a \<noteq> b then Some (u16 j)
                          else autocomplete_lcp first nm (j + 1) alen)))
      else Some alen)"
  by pat_completeness auto
termination
  by (relation "measure (\<lambda>(first, nm, j, alen). alen - j)") auto

declare autocomplete_lcp.simps [simp del]

text \<open>
  The body of the loop over the bindings, for the binding \<open>b\<close> at index \<open>k\<close>;
  \<open>cSize\<close> is \<^verbatim>\<open>impl->cmdSize\<close>. The prefix test compares the first
  \<^verbatim>\<open>prefixLen\<close> bytes, which both strings have.
\<close>

definition getAutocompletedCommand_body ::
  "nat \<Rightarrow> string \<Rightarrow> CliCommandBinding \<Rightarrow> nat \<Rightarrow> AutocompletedCommand \<times> u8 list
     \<Rightarrow> (AutocompletedCommand \<times> u8 list) option" where
  "getAutocompletedCommand_body cSize prefix b k acc =
     (let cmd = fst acc; nm = name b; len = length nm in do {
        f0 \<leftarrow> rd (snd acc) k;
        fl1 \<leftarrow> wr (snd acc) k (UNSET_U8FLAG f0 BINDING_FLAG_AUTOCOMPLETE);
        if len < length prefix then Some (cmd, fl1)
        else if \<not> list_all (\<lambda>j. prefix ! j = nm ! j) [0..<length prefix] then Some (cmd, fl1)
        else do {
          f1 \<leftarrow> rd fl1 k;
          fl2 \<leftarrow> wr fl1 k (f1 OR BINDING_FLAG_AUTOCOMPLETE);
          let alen = (if candidateCount cmd = 0 \<or> len < autocompletedLen cmd then u16 len
                      else autocompletedLen cmd);
          let cnt = u16 (candidateCount cmd + 1);
          if cnt = 1
          then Some (\<lparr>firstCandidate = Some nm, autocompletedLen = alen,
                      candidateCount = cnt\<rparr>, fl2)
          else do {
            alen' \<leftarrow> autocomplete_lcp (firstCandidate cmd) nm cSize alen;
            Some (\<lparr>firstCandidate = firstCandidate cmd, autocompletedLen = alen',
                   candidateCount = cnt\<rparr>, fl2) } } })"

fun getAutocompletedCommand_loop ::
  "nat \<Rightarrow> string \<Rightarrow> CliCommandBinding list \<Rightarrow> nat \<Rightarrow> AutocompletedCommand \<times> u8 list
     \<Rightarrow> (AutocompletedCommand \<times> u8 list) option" where
  "getAutocompletedCommand_loop cSize prefix [] k acc = Some acc"
| "getAutocompletedCommand_loop cSize prefix (b # bs) k acc =
     (case getAutocompletedCommand_body cSize prefix b k acc of
        None \<Rightarrow> None
      | Some acc' \<Rightarrow> getAutocompletedCommand_loop cSize prefix bs (k + 1) acc')"

text \<open>
  \<^verbatim>\<open>getAutocompletedCommand(cli, prefix)\<close>: the result and the new candidate flags.
\<close>

definition getAutocompletedCommand ::
  "EmbeddedCli \<Rightarrow> string \<Rightarrow> (AutocompletedCommand \<times> u8 list) option" where
  "getAutocompletedCommand cli prefix =
     (let cmd = \<lparr>firstCandidate = None, autocompletedLen = 0, candidateCount = 0\<rparr> in
      if bindingsCount cli = 0 \<or> length prefix = 0 then Some (cmd, bindingsFlags cli)
      else getAutocompletedCommand_loop (cmdSize cli) prefix (bindings cli) 0
             (cmd, bindingsFlags cli))"

text \<open>The bytes \<^verbatim>\<open>firstCandidate[i]\<close> for \<open>a \<le> i < b\<close>, read in order.\<close>

definition candidate_chars :: "string option \<Rightarrow> nat \<Rightarrow> nat \<Rightarrow> string option" where
  "candidate_chars first a b =
     (if b \<le> a then Some []
      else (case first of None \<Rightarrow> None | Some f \<Rightarrow> those (map (str_rd f) [a..<b])))"

definition printLiveAutocompletion :: "EmbeddedCli \<Rightarrow> EmbeddedCli option" where
  "printLiveAutocompletion cli =
     (if \<not> IS_FLAG_SET (flags cli) CLI_FLAG_AUTOCOMPLETE_ENABLED then Some cli
      else do {
        prefix \<leftarrow> c_str (cmdBuffer cli) 0;
        (cmd, fl) \<leftarrow> getAutocompletedCommand cli prefix;
        let alen = (if candidateCount cmd = 0 then cmdSize cli else autocompletedLen cmd);
        suffix \<leftarrow> candidate_chars (firstCandidate cmd) (cmdSize cli) alen;
        c1 \<leftarrow> write_chars (cli\<lparr>bindingsFlags := fl\<rparr>) suffix;
        c2 \<leftarrow> write_chars c1 (replicate (inputLineLength cli - alen) SP);
        c3 \<leftarrow> write_char (c2\<lparr>inputLineLength := alen\<rparr>) CR;
        c4 \<leftarrow> writeToOutput c3 (invitation cli);
        writeToOutput c4 prefix })"

text \<open>The loop of \<^verbatim>\<open>onAutocompleteRequest\<close> that prints the flagged candidates.\<close>

fun print_candidates :: "CliCommandBinding list \<Rightarrow> nat \<Rightarrow> EmbeddedCli \<Rightarrow> EmbeddedCli option" where
  "print_candidates [] k cli = Some cli"
| "print_candidates (b # bs) k cli = do {
     f \<leftarrow> rd (bindingsFlags cli) k;
     c1 \<leftarrow> (if f AND BINDING_FLAG_AUTOCOMPLETE = 0 then Some cli
            else do { c \<leftarrow> writeToOutput cli (name b); writeToOutput c lineBreak });
     print_candidates bs (k + 1) c1 }"

definition onAutocompleteRequest :: "EmbeddedCli \<Rightarrow> EmbeddedCli option" where
  "onAutocompleteRequest cli0 = do {
     prefix \<leftarrow> c_str (cmdBuffer cli0) 0;
     (cmd, fl) \<leftarrow> getAutocompletedCommand cli0 prefix;
     let cli = cli0\<lparr>bindingsFlags := fl\<rparr>;
     if candidateCount cmd = 0 then Some cli
     else if candidateCount cmd = 1 \<or> autocompletedLen cmd > cmdSize cli
     then do {
       first \<leftarrow> firstCandidate cmd;
       bytes \<leftarrow> mem_read (first @ [NUL]) 0 (autocompletedLen cmd);
       m1 \<leftarrow> mem_write (cmdBuffer cli) 0 bytes;
       (m2, alen) \<leftarrow> (if candidateCount cmd = 1
                      then do { m \<leftarrow> wr m1 (autocompletedLen cmd) SP;
                                Some (m, u16 (autocompletedLen cmd + 1)) }
                      else Some (m1, autocompletedLen cmd));
       m3 \<leftarrow> wr m2 alen NUL;
       added \<leftarrow> c_str m3 (cmdSize cli);
       c1 \<leftarrow> writeToOutput (cli\<lparr>cmdBuffer := m3\<rparr>) added;
       Some (c1\<lparr>cmdSize := alen, inputLineLength := alen\<rparr>) }
     else do {
       c1 \<leftarrow> clearCurrentLine cli;
       c2 \<leftarrow> print_candidates (bindings c1) 0 c1;
       c3 \<leftarrow> writeToOutput c2 (invitation c2);
       c4 \<leftarrow> writeToOutput c3 prefix;
       Some (c4\<lparr>inputLineLength := cmdSize c4\<rparr>) } }"

subsection \<open>Dispatcher\<close>

text \<open>
  The first loop of \<^verbatim>\<open>_parseCommand\<close>: is every byte of the command a space?
\<close>

function isEmpty_loop :: "string \<Rightarrow> nat \<Rightarrow> nat \<Rightarrow> bool option" where
  "isEmpty_loop command_buffer command_size k =
     (if k < command_size
      then (case rd command_buffer k of
              None \<Rightarrow> None
            | Some c \<Rightarrow>
                if c \<noteq> SP then Some False
                else isEmpty_loop command_buffer command_size (k + 1))
      else Some True)"
  by pat_completeness auto
termination
  by (relation "measure (\<lambda>(command_buffer, command_size, k). command_size - k)") auto

declare isEmpty_loop.simps [simp del]

text \<open>
  The second loop: it finds \<^verbatim>\<open>cmdName\<close> and \<^verbatim>\<open>cmdArgs\<close> and fills the spaces
  before the arguments with NUL. The state is the buffer, the two pointers and
  \<^verbatim>\<open>nameFinished\<close>.
\<close>

function split_loop ::
  "nat \<Rightarrow> nat \<Rightarrow> string \<times> nat option \<times> nat option \<times> bool
     \<Rightarrow> (string \<times> nat option \<times> nat option \<times> bool) option" where
  "split_loop command_size k (command_buffer, cmdName, cmdArgs, nameFinished) =
     (if k < command_size
      then (case rd command_buffer k of
              None \<Rightarrow> None
            | Some c \<Rightarrow>
                if c = SP
                then (case (if cmdArgs = None then wr command_buffer k NUL
                            else Some command_buffer) of
                        None \<Rightarrow> None
                      | Some m \<Rightarrow>
                          split_loop command_size (k + 1)
                            (m, cmdName, cmdArgs, nameFinished \<or> cmdName \<noteq> None))
                else if cmdName = None
                  then split_loop command_size (k + 1)
                         (command_buffer, Some k, cmdArgs, nameFinished)
                else if cmdArgs = None \<and> nameFinished
                  then split_loop command_size (k + 1)
                         (command_buffer, cmdName, Some k, nameFinished)
                else split_loop command_size (k + 1)
                       (command_buffer, cmdName, cmdArgs, nameFinished))
      else Some (command_buffer, cmdName, cmdArgs, nameFinished))"
  by pat_completeness auto
termination
  by (relation "measure (\<lambda>(command_size, k, st). command_size - k)") auto

declare split_loop.simps [simp del]

text \<open>
  The search through the bindings stops at the first one whose name equals the command
  name: the index and the binding, if there is one.
\<close>

fun find_binding :: "CliCommandBinding list \<Rightarrow> nat \<Rightarrow> string \<Rightarrow> (nat \<times> CliCommandBinding) option" where
  "find_binding [] k nm = None"
| "find_binding (b # bs) k nm = (if nm = name b then Some (k, b) else find_binding bs (k + 1) nm)"

text \<open>The body of the search loop on a match with a handler.\<close>

definition invoke_binding ::
  "EmbeddedCli \<Rightarrow> string \<Rightarrow> nat \<Rightarrow> CliCommandBinding \<Rightarrow> (string option \<Rightarrow> u8) \<Rightarrow> nat option \<Rightarrow> bool
     \<Rightarrow> (int \<times> EmbeddedCli \<times> string) option" where
  "invoke_binding cli command_buffer k b handler cmdArgs direct_mode = do {
     m \<leftarrow> (if tokenizeArgs b then embeddedCliTokenizeArgs command_buffer cmdArgs
           else Some command_buffer);
     let c1 = (if \<not> direct_mode then cli\<lparr>flags := SET_FLAG (flags cli) CLI_FLAG_DIRECT_PRINT\<rparr>
               else cli);
     let view = map_option (\<lambda>p. drop p m) cmdArgs;
     let result = handler view;
     let c2 = c1\<lparr>calls := calls c1 @ [Handler k view]\<rparr>;
     let c3 = (if postCommand c2 then c2\<lparr>calls := calls c2 @ [PostCommand result]\<rparr> else c2);
     let c4 = (if \<not> direct_mode then c3\<lparr>flags := UNSET_U8FLAG (flags c3) CLI_FLAG_DIRECT_PRINT\<rparr>
               else c3);
     Some (0, c4, m) }"

text \<open>What follows the search loop when it found no binding with a handler.\<close>

definition unbound_command ::
  "EmbeddedCli \<Rightarrow> string \<Rightarrow> string \<Rightarrow> nat option \<Rightarrow> bool \<Rightarrow> (int \<times> EmbeddedCli \<times> string) option" where
  "unbound_command cli command_buffer nm cmdArgs direct_mode =
     (if direct_mode then Some (1, cli, command_buffer)
      else if onCommand cli
      then (let c1 = cli\<lparr>flags := SET_FLAG (flags cli) CLI_FLAG_DIRECT_PRINT\<rparr>;
                c2 = c1\<lparr>calls := calls c1 @ [OnCommand nm (map_option (\<lambda>p. drop p command_buffer) cmdArgs)]\<rparr>
            in Some (1, c2\<lparr>flags := UNSET_U8FLAG (flags c2) CLI_FLAG_DIRECT_PRINT\<rparr>, command_buffer))
      else do {
        c1 \<leftarrow> onUnknownCommand cli nm;
        Some (1, if postCommand c1 then c1\<lparr>calls := calls c1 @ [PostCommand 1]\<rparr> else c1,
              command_buffer) })"

text \<open>
  \<^verbatim>\<open>_parseCommand(cli, command_buffer, command_size, direct_mode, handle)\<close>. The
  buffer is passed and returned next to the engine: it is \<^verbatim>\<open>impl->cmdBuffer\<close> for the
  editor and a buffer of its own in direct mode. The result is the return value, the
  engine and the buffer.
\<close>

definition internal_parseCommand ::
  "EmbeddedCli \<Rightarrow> string \<Rightarrow> nat \<Rightarrow> bool \<Rightarrow> (int \<times> EmbeddedCli \<times> string) option" where
  "internal_parseCommand cli command_buffer command_size direct_mode = do {
     isEmpty \<leftarrow> isEmpty_loop command_buffer command_size 0;
     if isEmpty then Some (1, cli, command_buffer)
     else do {
       h \<leftarrow> (if \<not> direct_mode
             then do { str \<leftarrow> c_str command_buffer 0;
                       (ok, h') \<leftarrow> historyPut (history cli) str;
                       Some h' }
             else Some (history cli));
       (m1, cmdName, cmdArgs, nameFinished) \<leftarrow>
          split_loop command_size 0 (command_buffer, None, None, False);
       m2 \<leftarrow> wr m1 (command_size + 1) NUL;
       (case cmdName of
          None \<Rightarrow> Some (1, cli\<lparr>history := h\<rparr>, m2)
        | Some n \<Rightarrow> do {
            nm \<leftarrow> c_str m2 n;
            (case find_binding (bindings cli) 0 nm of
               None \<Rightarrow> unbound_command (cli\<lparr>history := h\<rparr>) m2 nm cmdArgs direct_mode
             | Some (k, b) \<Rightarrow>
                 (case binding b of
                    None \<Rightarrow> unbound_command (cli\<lparr>history := h\<rparr>) m2 nm cmdArgs direct_mode
                  | Some handler \<Rightarrow>
                      invoke_binding (cli\<lparr>history := h\<rparr>) m2 k b handler cmdArgs direct_mode)) }) } }"

definition parseCommand :: "EmbeddedCli \<Rightarrow> EmbeddedCli option" where
  "parseCommand cli = do {
     (ret, c1, m) \<leftarrow> internal_parseCommand cli (cmdBuffer cli) (cmdSize cli) False;
     Some (c1\<lparr>cmdBuffer := m\<rparr>) }"

text \<open>
  \<^verbatim>\<open>strncpy(buffer, command, length)\<close> into a fresh buffer: the bytes of
  \<^verbatim>\<open>command\<close> up to its first NUL, padded with NUL to \<^verbatim>\<open>length\<close>; \<open>command\<close> is
  the array the pointer refers to, which is read up to that NUL or for \<^verbatim>\<open>length\<close> bytes.
\<close>

definition strncpy_bytes :: "string \<Rightarrow> nat \<Rightarrow> string option" where
  "strncpy_bytes command n =
     (let s = takeWhile (\<lambda>c. c \<noteq> NUL) (take n command) in
      if NUL \<in> set (take n command) \<or> n \<le> length command
      then Some (s @ replicate (n - length s) NUL) else None)"

text \<open>
  \<^verbatim>\<open>embeddedCliParseDirectCommand\<close>. The buffer comes from \<^verbatim>\<open>malloc(length + 2)\<close>;
  its last byte is not initialised, and \<open>uninit\<close> is the value it happens to hold.
\<close>

definition embeddedCliParseDirectCommand ::
  "EmbeddedCli \<Rightarrow> string \<Rightarrow> nat \<Rightarrow> char \<Rightarrow> (int \<times> EmbeddedCli) option" where
  "embeddedCliParseDirectCommand cli command len uninit = do {
     bytes \<leftarrow> strncpy_bytes command len;
     (ret, c1, m) \<leftarrow> internal_parseCommand cli (bytes @ [NUL, uninit]) len True;
     Some (ret, c1) }"

subsection \<open>Line editor\<close>

definition isControlChar :: "char \<Rightarrow> bool" where
  "isControlChar c = (c = CR \<or> c = LF \<or> c = BS \<or> c = TAB \<or> c = DEL)"

definition isDisplayableChar :: "char \<Rightarrow> bool" where
  "isDisplayableChar c = (32 \<le> (of_char c :: nat) \<and> (of_char c :: nat) \<le> 126)"

definition navigateHistory :: "EmbeddedCli \<Rightarrow> bool \<Rightarrow> EmbeddedCli option" where
  "navigateHistory cli navigateUp =
     (if itemsCount (history cli) = 0
         \<or> (navigateUp \<and> current (history cli) = itemsCount (history cli))
         \<or> (\<not> navigateUp \<and> current (history cli) = 0)
      then Some cli
      else do {
        c1 \<leftarrow> clearCurrentLine cli;
        c2 \<leftarrow> writeToOutput c1 (invitation c1);
        let h = (history c2)\<lparr>current := (if navigateUp then u16 (current (history c2) + 1)
                                           else current (history c2) - 1)\<rparr>;
        item \<leftarrow> historyGet h (current h);
        str \<leftarrow> (case item of None \<Rightarrow> Some [] | Some p \<Rightarrow> c_str (buf h) p);
        let len = u16 (length str);
        m1 \<leftarrow> mem_write (cmdBuffer c2) 0 (take len str);
        m2 \<leftarrow> wr m1 len NUL;
        shown \<leftarrow> c_str m2 0;
        c3 \<leftarrow> writeToOutput (c2\<lparr>history := h, cmdBuffer := m2, cmdSize := len\<rparr>) shown;
        printLiveAutocompletion (c3\<lparr>inputLineLength := len\<rparr>) })"

definition onEscapedInput :: "EmbeddedCli \<Rightarrow> char \<Rightarrow> EmbeddedCli option" where
  "onEscapedInput cli c =
     (if 64 \<le> (of_char c :: nat) \<and> (of_char c :: nat) \<le> 126
      then (let c1 = cli\<lparr>flags := UNSET_U8FLAG (flags cli) CLI_FLAG_ESCAPE_MODE\<rparr> in
            if c = CHR ''A'' \<or> c = CHR ''B'' then navigateHistory c1 (c = CHR ''A'')
            else Some c1)
      else Some cli)"

definition onCharInput :: "EmbeddedCli \<Rightarrow> char \<Rightarrow> EmbeddedCli option" where
  "onCharInput cli c =
     (if cmdSize cli + 2 \<ge> cmdMaxSize cli then Some cli
      else do {
        m1 \<leftarrow> wr (cmdBuffer cli) (cmdSize cli) c;
        m2 \<leftarrow> wr m1 (u16 (cmdSize cli + 1)) NUL;
        write_char (cli\<lparr>cmdBuffer := m2, cmdSize := u16 (cmdSize cli + 1)\<rparr>) c })"

text \<open>
  The branch of \<^verbatim>\<open>onControlInput\<close> for a line terminator that is not the second
  byte of a pair: the line is completed, submitted to the dispatcher when it is not empty,
  and a new line begins.
\<close>

definition submitLine :: "EmbeddedCli \<Rightarrow> EmbeddedCli option" where
  "submitLine cli = do {
     c1 \<leftarrow> onAutocompleteRequest cli;
     c2 \<leftarrow> writeToOutput c1 lineBreak;
     c3 \<leftarrow> (if cmdSize c2 > 0 then parseCommand c2 else Some c2);
     m \<leftarrow> wr (cmdBuffer c3) 0 NUL;
     writeToOutput
       (c3\<lparr>cmdSize := 0, cmdBuffer := m, inputLineLength := 0,
            history := (history c3)\<lparr>current := 0\<rparr>\<rparr>)
       (invitation c3) }"

definition onControlInput :: "EmbeddedCli \<Rightarrow> char \<Rightarrow> EmbeddedCli option" where
  "onControlInput cli c =
     (if (lastChar cli = CR \<and> c = LF) \<or> (lastChar cli = LF \<and> c = CR) then Some cli
      else if c = CR \<or> c = LF then submitLine cli
      else if (c = BS \<or> c = DEL) \<and> cmdSize cli > 0
      then do {
        c1 \<leftarrow> write_char cli BS;
        c2 \<leftarrow> write_char c1 SP;
        c3 \<leftarrow> write_char c2 BS;
        m \<leftarrow> wr (cmdBuffer c3) (cmdSize c3 - 1) NUL;
        Some (c3\<lparr>cmdSize := cmdSize c3 - 1, cmdBuffer := m\<rparr>) }
      else if c = TAB then onAutocompleteRequest cli
      else Some cli)"

subsection \<open>Ingest and the processing loop\<close>

definition embeddedCliReceiveChar :: "EmbeddedCli \<Rightarrow> char \<Rightarrow> EmbeddedCli option" where
  "embeddedCliReceiveChar cli c = do {
     (pushed, rx) \<leftarrow> fifoBufPush (rxBuffer cli) c;
     Some (if \<not> pushed
           then cli\<lparr>rxBuffer := rx, flags := SET_FLAG (flags cli) CLI_FLAG_OVERFLOW\<rparr>
           else cli\<lparr>rxBuffer := rx\<rparr>) }"

text \<open>
  The body of the loop of \<^verbatim>\<open>embeddedCliProcess\<close> for the byte \<open>c\<close> just popped: this
  is where a byte enters the editor.
\<close>

definition processByte :: "EmbeddedCli \<Rightarrow> char \<Rightarrow> EmbeddedCli option" where
  "processByte cli c = do {
     c1 \<leftarrow> (if IS_FLAG_SET (flags cli) CLI_FLAG_ESCAPE_MODE then onEscapedInput cli c
            else if lastChar cli = ESC \<and> c = CHR ''[''
              then Some (cli\<lparr>flags := SET_FLAG (flags cli) CLI_FLAG_ESCAPE_MODE\<rparr>)
            else if isControlChar c then onControlInput cli c
            else if isDisplayableChar c then onCharInput cli c
            else Some cli);
     c2 \<leftarrow> printLiveAutocompletion c1;
     Some (c2\<lparr>lastChar := c\<rparr>) }"

partial_function (option) embeddedCliProcess_loop :: "EmbeddedCli \<Rightarrow> EmbeddedCli option" where
  "embeddedCliProcess_loop cli =
     (if fifoBufAvailable (rxBuffer cli) \<noteq> 0
      then do {
        (c, rx) \<leftarrow> fifoBufPop (rxBuffer cli);
        c1 \<leftarrow> processByte (cli\<lparr>rxBuffer := rx\<rparr>) c;
        embeddedCliProcess_loop c1 }
      else Some cli)"

declare embeddedCliProcess_loop.simps [code]

definition embeddedCliProcess :: "EmbeddedCli \<Rightarrow> EmbeddedCli option" where
  "embeddedCliProcess cli =
     (if \<not> writeChar cli then Some cli
      else do {
        c1 \<leftarrow> (if \<not> IS_FLAG_SET (flags cli) CLI_FLAG_INIT_COMPLETE
               then writeToOutput (cli\<lparr>flags := SET_FLAG (flags cli) CLI_FLAG_INIT_COMPLETE\<rparr>)
                      (invitation cli)
               else Some cli);
        c2 \<leftarrow> embeddedCliProcess_loop c1;
        if IS_FLAG_SET (flags c2) CLI_FLAG_OVERFLOW
        then do {
          m \<leftarrow> wr (cmdBuffer c2) 0 NUL;
          Some (c2\<lparr>cmdSize := 0, cmdBuffer := m,
                   flags := UNSET_U8FLAG (flags c2) CLI_FLAG_OVERFLOW\<rparr>) }
        else Some c2 })"

text \<open>Feeding a list of bytes to the editor, one after the other.\<close>

fun processBytes :: "EmbeddedCli \<Rightarrow> string \<Rightarrow> EmbeddedCli option" where
  "processBytes cli [] = Some cli"
| "processBytes cli (c # cs) = (case processByte cli c of None \<Rightarrow> None | Some c1 \<Rightarrow> processBytes c1 cs)"

section \<open>Notions used to state the properties\<close>

text \<open>
  A binding name is a candidate for a prefix when its first bytes are the prefix; the
  candidates of a binding table, in the order of the table.
\<close>

definition is_candidate :: "string \<Rightarrow> string \<Rightarrow> bool" where
  "is_candidate prefix nm \<longleftrightarrow> length prefix \<le> length nm \<and> take (length prefix) nm = prefix"

definition candidates :: "string \<Rightarrow> CliCommandBinding list \<Rightarrow> string list" where
  "candidates prefix bs = filter (is_candidate prefix) (map name bs)"

text \<open>
  The invariant of the loop over the bindings in \<^verbatim>\<open>getAutocompletedCommand\<close>, after
  the bindings \<open>pre\<close>; \<open>cSize\<close> is \<^verbatim>\<open>impl->cmdSize\<close>, where the comparison of two
  candidates starts.
\<close>

definition ac_inv :: "nat \<Rightarrow> string \<Rightarrow> CliCommandBinding list \<Rightarrow> AutocompletedCommand \<Rightarrow> bool" where
  "ac_inv cSize prefix pre cmd \<longleftrightarrow>
     candidateCount cmd = length (candidates prefix pre) \<and>
     autocompletedLen cmd < 65536 \<and>
     (candidates prefix pre = [] \<longrightarrow> firstCandidate cmd = None \<and> autocompletedLen cmd = 0) \<and>
     (candidates prefix pre \<noteq> [] \<longrightarrow>
        firstCandidate cmd = Some (hd (candidates prefix pre)) \<and>
        (\<forall>c \<in> set (candidates prefix pre). autocompletedLen cmd \<le> length c) \<and>
        ((\<forall>c \<in> set (candidates prefix pre). length c < 65536) \<longrightarrow>
           length prefix \<le> autocompletedLen cmd) \<and>
        (cSize \<le> length prefix \<longrightarrow>
           (\<forall>c \<in> set (candidates prefix pre).
              take (autocompletedLen cmd) (hd (candidates prefix pre)) = take (autocompletedLen cmd) c)) \<and>
        (cSize \<le> length prefix \<and> (\<forall>c \<in> set (candidates prefix pre). length c < 65536) \<longrightarrow>
           (\<exists>c \<in> set (candidates prefix pre). length c = autocompletedLen cmd) \<or>
           (\<exists>c \<in> set (candidates prefix pre).
              c ! autocompletedLen cmd \<noteq> hd (candidates prefix pre) ! autocompletedLen cmd)))"

text \<open>
  An engine as \<^verbatim>\<open>embeddedCliNew\<close> and \<^verbatim>\<open>embeddedCliAddBinding\<close> leave it, with
  the bindings \<open>bs\<close>, after the bytes \<open>typed\<close> were entered: buffers of 16, 16 and 8
  bytes, the per-byte output hook only. It serves as a concrete input.
\<close>

definition example_cli :: "CliCommandBinding list \<Rightarrow> string \<Rightarrow> EmbeddedCli" where
  "example_cli bs typed =
     \<lparr>invitation = ''> '',
      history = \<lparr>buf = replicate 16 NUL, current = 0, itemsCount = 0\<rparr>,
      rxBuffer = \<lparr>fbuf = replicate 8 NUL, ffront = 0, fback = 0\<rparr>,
      cmdBuffer = typed @ replicate (16 - length typed) NUL,
      cmdSize = length typed,
      bindings = bs,
      bindingsFlags = replicate (length bs) 0,
      maxBindingsCount = length bs,
      inputLineLength = length typed,
      lastChar = NUL,
      flags = CLI_FLAG_INIT_COMPLETE OR CLI_FLAG_AUTOCOMPLETE_ENABLED,
      writeChar = True, writeString = False, onCommand = False, postCommand = False,
      calls = []\<rparr>"

definition example_binding :: "string \<Rightarrow> CliCommandBinding" where
  "example_binding nm = \<lparr>name = nm, help_text = None, tokenizeArgs = True, binding = Some (\<lambda>args. 0)\<rparr>"

text \<open>A name of 65536 bytes, the first length that does not fit \<^verbatim>\<open>uint16_t\<close>.\<close>

definition long_name :: string where
  "long_name = replicate 65536 (CHR ''a'')"

text \<open>
  An engine whose command buffer holds \<^verbatim>\<open>foo\<close>, NUL, \<^verbatim>\<open>bar\<close> while
  \<^verbatim>\<open>cmdSize\<close> is 7: the state in which \<^verbatim>\<open>_parseCommand\<close> leaves the line
  \<^verbatim>\<open>foo bar\<close> while it runs, having split it in place. It serves as a concrete input.
\<close>

definition split_cli :: EmbeddedCli where
  "split_cli = (example_cli [example_binding ''fooA'', example_binding ''fooB''] ''foo'')
     \<lparr>cmdBuffer := ''foo'' @ [NUL] @ ''bar'' @ replicate 9 NUL, cmdSize := 7\<rparr>"

text \<open>
  What every pass of the loop in \<^verbatim>\<open>getAutocompletedCommand\<close> keeps, whatever the
  names are: a counted candidate has been stored, and the length is within it.
\<close>

definition ac_inv0 :: "AutocompletedCommand \<Rightarrow> bool" where
  "ac_inv0 cmd \<longleftrightarrow> candidateCount cmd < 65536 \<and>
     (candidateCount cmd \<noteq> 0 \<longrightarrow>
        (\<exists>f. firstCandidate cmd = Some f \<and> autocompletedLen cmd \<le> length f))"

text \<open>Delivering a list of bytes through \<^verbatim>\<open>embeddedCliReceiveChar\<close>, one by one.\<close>

fun receiveChars :: "EmbeddedCli \<Rightarrow> string \<Rightarrow> EmbeddedCli option" where
  "receiveChars cli [] = Some cli"
| "receiveChars cli (c # cs) =
     (case embeddedCliReceiveChar cli c of None \<Rightarrow> None | Some c1 \<Rightarrow> receiveChars c1 cs)"

text \<open>
  The ring buffer as a queue: its indices are inside the array, whose size fits
  \<^verbatim>\<open>uint16_t\<close>; the number of queued bytes and the bytes, from \<open>ffront\<close> on.
\<close>

definition fifo_wf :: "FifoBuf \<Rightarrow> bool" where
  "fifo_wf b \<longleftrightarrow> ffront b < fifo_size b \<and> fback b < fifo_size b \<and> fifo_size b < 65536"

definition fifo_count :: "FifoBuf \<Rightarrow> nat" where
  "fifo_count b = (fback b + fifo_size b - ffront b) mod fifo_size b"

definition fifo_content :: "FifoBuf \<Rightarrow> string" where
  "fifo_content b = map (\<lambda>k. fbuf b ! ((ffront b + k) mod fifo_size b)) [0..<fifo_count b]"

text \<open>Setting the ring buffer of an engine.\<close>

abbreviation rxu :: "FifoBuf \<Rightarrow> EmbeddedCli \<Rightarrow> EmbeddedCli" where
  "rxu r \<equiv> rxBuffer_update (\<lambda>_. r)"

text \<open>
  The name of a command line: what follows its leading spaces, up to the next space or NUL.
\<close>

definition command_name :: "string \<Rightarrow> string" where
  "command_name s = takeWhile (\<lambda>c. c \<noteq> SP \<and> c \<noteq> NUL) (dropWhile (\<lambda>c. c = SP) s)"

text \<open>
  The calls that belong to the invocation of a binding: the handler and the
  \<^verbatim>\<open>postCommand\<close> hook. Output and the \<^verbatim>\<open>onCommand\<close> fallback are the other ones.
\<close>

fun binding_call :: "call \<Rightarrow> bool" where
  "binding_call (Handler k v) = True"
| "binding_call (PostCommand r) = True"
| "binding_call _ = False"

text \<open>Whether the overflow flag of an engine is set.\<close>

definition overflowed :: "EmbeddedCli \<Rightarrow> bool" where
  "overflowed cli = IS_FLAG_SET (flags cli) CLI_FLAG_OVERFLOW"


text \<open>
  The bytes of a list of items as \<^verbatim>\<open>historyPut\<close> stores them: each item followed
  by its NUL, the most recent item first.
\<close>

definition layout :: "string list \<Rightarrow> string" where
  "layout ss = concat (map (\<lambda>s. s @ [NUL]) ss)"

text \<open>
  A history is well formed, with the items \<open>ss\<close>, when its buffer starts with the
  layout of \<open>ss\<close>, no item is empty or holds a NUL, \<^verbatim>\<open>itemsCount\<close> is their
  number and \<^verbatim>\<open>bufferSize\<close> fits its \<^verbatim>\<open>uint16_t\<close>. The bytes after the layout
  are arbitrary. The empty history is well formed, and \<^verbatim>\<open>historyPut\<close> of a non-empty
  string keeps a history well formed.
\<close>

definition wf_hist :: "CliHistory \<Rightarrow> string list \<Rightarrow> bool" where
  "wf_hist h ss \<longleftrightarrow>
     length (layout ss) \<le> length (buf h) \<and> take (length (layout ss)) (buf h) = layout ss \<and>
     list_all (\<lambda>s. s \<noteq> [] \<and> NUL \<notin> set s) ss \<and>
     itemsCount h = length ss \<and> length (buf h) < 65536"

text \<open>
  A history of eight bytes that holds \<^verbatim>\<open>c\<close> (the most recent item) and \<^verbatim>\<open>ab\<close>.
  It serves as a concrete input.
\<close>

definition example_history :: CliHistory where
  "example_history = \<lparr>buf = ''c'' @ [NUL] @ ''ab'' @ [NUL] @ replicate 3 NUL, current = 0, itemsCount = 2\<rparr>"

text \<open>A sequence of calls of \<^verbatim>\<open>historyPut\<close>, the oldest first.\<close>

fun historyPuts :: "CliHistory \<Rightarrow> string list \<Rightarrow> CliHistory option" where
  "historyPuts h [] = Some h"
| "historyPuts h (s # ss) = Option.bind (historyPut h s) (\<lambda>(ok, h'). historyPuts h' ss)"


section \<open>Facts about C strings\<close>


lemma c_str_SomeD:
  assumes "c_str mem p = Some s"
  shows "p + length s < length mem" and "mem ! (p + length s) = NUL"
    and "\<And>j. j < length s \<Longrightarrow> mem ! (p + j) = s ! j" and "NUL \<notin> set s"
    and "s = take (length s) (drop p mem)"
proof -
  from assms have in_set: "NUL \<in> set (drop p mem)"
    and s: "s = takeWhile (\<lambda>c. c \<noteq> NUL) (drop p mem)"
    by (auto simp: c_str_def split: if_splits)
  have lt: "length s < length (drop p mem)"
  proof -
    have "takeWhile (\<lambda>c. c \<noteq> NUL) (drop p mem) \<noteq> drop p mem"
      using in_set by (auto simp: takeWhile_eq_all_conv)
    then have "length (takeWhile (\<lambda>c. c \<noteq> NUL) (drop p mem)) \<noteq> length (drop p mem)"
      by (metis takeWhile_eq_take take_all_iff order_refl)
    moreover have "length (takeWhile (\<lambda>c. c \<noteq> NUL) (drop p mem)) \<le> length (drop p mem)"
      by (rule length_takeWhile_le)
    ultimately show ?thesis unfolding s by linarith
  qed
  then show 1: "p + length s < length mem" by simp
  have "drop p mem ! length s = NUL"
    unfolding s using in_set nth_length_takeWhile [of "\<lambda>c. c \<noteq> NUL" "drop p mem"] lt s by auto
  then show "mem ! (p + length s) = NUL" using 1 by simp
  show "NUL \<notin> set s" unfolding s by (auto dest: set_takeWhileD)
  show "\<And>j. j < length s \<Longrightarrow> mem ! (p + j) = s ! j"
  proof -
    fix j assume j: "j < length s"
    then have "s ! j = drop p mem ! j" unfolding s by (rule takeWhile_nth)
    also have "\<dots> = mem ! (p + j)" using j 1 by simp
    finally show "mem ! (p + j) = s ! j" by simp
  qed
  show "s = take (length s) (drop p mem)"
    unfolding s by (metis takeWhile_eq_take)
qed

lemma strlen_SomeD:
  assumes "strlen mem p = Some L"
  shows "p + L < length mem" and "mem ! (p + L) = NUL"
    and "\<And>j. j < L \<Longrightarrow> mem ! (p + j) \<noteq> NUL"
proof -
  from assms obtain s where s: "c_str mem p = Some s" and L: "L = length s"
    by (auto simp: strlen_def)
  show "p + L < length mem" "mem ! (p + L) = NUL"
    using c_str_SomeD(1,2) [OF s] L by auto
  fix j assume "j < L"
  then show "mem ! (p + j) \<noteq> NUL"
    using c_str_SomeD(3,4) [OF s] L by (metis nth_mem)
qed

section \<open>Tokenizer: bounds of the in-place scan\<close>

definition tok_inv :: "nat \<Rightarrow> string \<Rightarrow> nat \<Rightarrow> tok_state \<Rightarrow> bool" where
  "tok_inv base mem L s \<longleftrightarrow>
     length (t_args s) = length mem \<and> t_insertPos s \<le> t_i s \<and> t_i s \<le> L \<and>
     (\<forall>k. k < base \<or> base + t_insertPos s \<le> k \<longrightarrow> t_args s ! k = mem ! k)"

lemma tok_emit_inv:
  assumes "length (t_args s) = length mem" "t_insertPos s < n" "n \<le> L" "base + L < length mem"
    "\<forall>k. k < base \<or> base + t_insertPos s \<le> k \<longrightarrow> t_args s ! k = mem ! k" "t_i s = n"
  shows "\<exists>s'. tok_emit base c s = Some s' \<and> tok_inv base mem L s' \<and> t_i s' = n"
  using assms
  by (auto simp: tok_emit_def tok_inv_def rd_def wr_def)

lemma tok_step_inv:
  assumes inv: "tok_inv base mem L s" and lt: "t_i s < L" and len: "base + L < length mem"
  shows "\<exists>s'. tok_step base c s = Some s' \<and> tok_inv base mem L s' \<and> t_i s' = Suc (t_i s)"
proof -
  have esc: "tok_inv base mem L (s\<lparr>t_i := Suc (t_i s), t_escapeActivated := True\<rparr>)"
    using inv lt by (auto simp: tok_inv_def)
  show ?thesis
    unfolding tok_step_def Let_def
    apply (simp add: esc)
    apply (intro conjI impI tok_emit_inv [where mem = mem and L = L])
    using inv lt len apply (simp_all add: tok_inv_def)
    done
qed

lemma tok_loop_inv:
  assumes "tok_inv base mem L s" "base + L < length mem" "mem ! (base + L) = NUL"
    "\<And>j. j < L \<Longrightarrow> mem ! (base + j) \<noteq> NUL"
  shows "\<exists>s'. tok_loop base s = Some s' \<and> tok_inv base mem L s' \<and> t_i s' = L"
  using assms
proof (induction base s rule: tok_loop.induct)
  case (1 base s)
  have bound: "base + t_i s < length (t_args s)" and unread: "t_args s ! (base + t_i s) = mem ! (base + t_i s)"
    using "1.prems"(1,2) by (auto simp: tok_inv_def)
  then have r: "rd (t_args s) (base + t_i s) = Some (mem ! (base + t_i s))"
    by (simp add: rd_def)
  show ?case
  proof (cases "t_i s = L")
    case True
    then show ?thesis
      using r "1.prems"(1,3) by (subst tok_loop.simps) simp
  next
    case False
    then have lt: "t_i s < L" using "1.prems"(1) by (simp add: tok_inv_def)
    then have nz: "mem ! (base + t_i s) \<noteq> NUL" using "1.prems"(4) by simp
    from tok_step_inv [OF "1.prems"(1) lt "1.prems"(2), of "mem ! (base + t_i s)"]
    obtain s1 where s1: "tok_step base (mem ! (base + t_i s)) s = Some s1"
      and inv1: "tok_inv base mem L s1" by blast
    from "1.IH" [OF r nz s1 inv1 "1.prems"(2,3,4)]
    show ?thesis
      using r nz s1 by (subst tok_loop.simps) simp
  qed
qed

lemma tok_reach_inv:
  assumes "tok_reach base mem s" "base + L < length mem" "mem ! (base + L) = NUL"
    "\<And>j. j < L \<Longrightarrow> mem ! (base + j) \<noteq> NUL"
  shows "tok_inv base mem L s"
  using assms
proof (induction rule: tok_reach.induct)
  case tok_reach_init
  then show ?case by (simp add: tok_inv_def tok_init_def)
next
  case (tok_reach_step s c s')
  then have inv: "tok_inv base mem L s" by blast
  have "t_args s ! (base + t_i s) = mem ! (base + t_i s)" "base + t_i s < length (t_args s)"
    using inv tok_reach_step.prems(1) by (auto simp: tok_inv_def)
  with tok_reach_step.hyps(2) have c: "c = mem ! (base + t_i s)"
    by (simp add: rd_def)
  have "t_i s \<noteq> L" using c tok_reach_step.hyps(3) tok_reach_step.prems(2) by auto
  then have lt: "t_i s < L" using inv by (simp add: tok_inv_def)
  from tok_step_inv [OF inv lt tok_reach_step.prems(1), of c] tok_reach_step.hyps(4)
  show ?case by auto
qed

lemma tok_loop_reach: "tok_reach base mem s \<Longrightarrow> tok_loop base s = Some s' \<Longrightarrow> tok_reach base mem s'"
proof (induction base s rule: tok_loop.induct)
  case (1 base s)
  from "1.prems"(2) obtain c where r: "rd (t_args s) (base + t_i s) = Some c"
    by (subst (asm) tok_loop.simps) (auto split: option.splits)
  show ?case
  proof (cases "c = NUL")
    case True
    have "s' = s" using r True "1.prems"(2) by (subst (asm) tok_loop.simps) simp
    with "1.prems"(1) show ?thesis by simp
  next
    case False
    with r "1.prems"(2) obtain s1 where s1: "tok_step base c s = Some s1" and l: "tok_loop base s1 = Some s'"
      by (subst (asm) tok_loop.simps) (auto split: option.splits)
    have "tok_reach base mem s1" using "1.prems"(1) r False s1 by (rule tok_reach_step)
    then show ?thesis using "1.IH" [OF r False s1 _ l] by simp
  qed
qed

text \<open>
  C10. For a NUL-terminated string of length \<open>L\<close> at \<open>args\<close>, in a block that holds
  the indices up to \<open>L + 1\<close> of it, \<^verbatim>\<open>embeddedCliTokenizeArgs\<close> returns. In every
  state of its scan the write index is at most the read index, which is at most \<open>L\<close>; the
  two terminating NULs are written at \<open>insertPos \<le> L\<close> and \<open>insertPos + 1 \<le> L + 1\<close>; the
  block keeps its length and every byte before \<open>args\<close> or beyond index \<open>L + 1\<close> of it.
\<close>

theorem tokenize_writes_within_slack:
  assumes "strlen mem base = Some L" and "base + L + 2 \<le> length mem"
  shows "\<exists>s a. tok_loop base (tok_init mem) = Some s
           \<and> embeddedCliTokenizeArgs mem (Some base) = Some a
           \<and> a = (t_args s)[base + t_insertPos s := NUL, base + t_insertPos s + 1 := NUL]
           \<and> t_insertPos s \<le> L
           \<and> length a = length mem
           \<and> (\<forall>k. k < base \<or> base + L + 1 < k \<longrightarrow> a ! k = mem ! k)
           \<and> (\<forall>r. tok_reach base mem r \<longrightarrow> t_insertPos r \<le> t_i r \<and> t_i r \<le> L)"
proof -
  note L = strlen_SomeD [OF assms(1)]
  have init: "tok_inv base mem L (tok_init mem)"
    by (simp add: tok_inv_def tok_init_def)
  from tok_loop_inv [OF init L]
  obtain s where s: "tok_loop base (tok_init mem) = Some s" and inv: "tok_inv base mem L s"
    by blast
  let ?a = "(t_args s)[base + t_insertPos s := NUL, base + t_insertPos s + 1 := NUL]"
  have ins: "t_insertPos s \<le> L" and len: "length (t_args s) = length mem"
    and fr: "\<forall>k. k < base \<or> base + t_insertPos s \<le> k \<longrightarrow> t_args s ! k = mem ! k"
    using inv by (auto simp: tok_inv_def)
  have tk: "embeddedCliTokenizeArgs mem (Some base) = Some ?a"
    using s ins len assms(2) by (simp add: embeddedCliTokenizeArgs_def wr_def)
  have frame: "\<forall>k. k < base \<or> base + L + 1 < k \<longrightarrow> ?a ! k = mem ! k"
    using fr ins by auto
  have reach: "\<forall>r. tok_reach base mem r \<longrightarrow> t_insertPos r \<le> t_i r \<and> t_i r \<le> L"
    using tok_reach_inv [OF _ L] by (auto simp: tok_inv_def)
  show ?thesis using s tk ins len frame reach by simp
qed


theorem tokenize_writes_within_slack_witness:
  "strlen (''a b'' @ [NUL, CHR ''x'']) 0 = Some 3
   \<and> 0 + 3 + 2 \<le> length (''a b'' @ [NUL, CHR ''x''])
   \<and> (\<exists>s a. tok_loop 0 (tok_init (''a b'' @ [NUL, CHR ''x''])) = Some s
           \<and> embeddedCliTokenizeArgs (''a b'' @ [NUL, CHR ''x'']) (Some 0) = Some a
           \<and> t_insertPos s \<le> 3 \<and> length a = 5)"
proof -
  have h1: "strlen (''a b'' @ [NUL, CHR ''x'']) 0 = Some 3"
    by (simp add: strlen_def c_str_def)
  have h2: "0 + 3 + 2 \<le> length (''a b'' @ [NUL, CHR ''x''])"
    by simp
  from tokenize_writes_within_slack [OF h1 h2] h1 h2 show ?thesis
    by auto
qed

section \<open>Tokenizer: the example of the specification\<close>

text \<open>
  C3 (as amended). Tokenizing \<^verbatim>\<open>"a b c"\<close> (in a block with one byte of slack behind
  its NUL) gives the double-NUL-terminated tokens a, b, c. A second run on the result reads
  it as the C string \<^verbatim>\<open>"a"\<close>: it stops at the first NUL and writes the two
  terminators behind the first token, over the second one, so that the token list becomes
  the single token a.
\<close>

theorem tokenize_a_b_c:
  "embeddedCliTokenizeArgs (''a b c'' @ [NUL, u]) (Some 0)
     = Some [CHR ''a'', NUL, CHR ''b'', NUL, CHR ''c'', NUL, NUL]
   \<and> token_list [CHR ''a'', NUL, CHR ''b'', NUL, CHR ''c'', NUL, NUL] = Some [''a'', ''b'', ''c'']
   \<and> embeddedCliTokenizeArgs [CHR ''a'', NUL, CHR ''b'', NUL, CHR ''c'', NUL, NUL] (Some 0)
     = Some [CHR ''a'', NUL, NUL, NUL, CHR ''c'', NUL, NUL]
   \<and> token_list [CHR ''a'', NUL, NUL, NUL, CHR ''c'', NUL, NUL] = Some [''a'']"
proof -
  have run: "embeddedCliTokenizeArgs (''a b c'' @ [NUL, u]) (Some 0)
     = Some [CHR ''a'', NUL, CHR ''b'', NUL, CHR ''c'', NUL, NUL]"
    by (simp add: embeddedCliTokenizeArgs_def tok_init_def tok_loop.simps rd_def wr_def
        tok_step_def tok_emit_def strchr_found_def separators_def)
  have toks: "token_list [CHR ''a'', NUL, CHR ''b'', NUL, CHR ''c'', NUL, NUL] = Some [''a'', ''b'', ''c'']"
    by (simp add: token_list_def embeddedCliGetTokenCount_def GetTokenCount_loop.simps
        token_at_def embeddedCliGetToken_def getTokenPosition_def getTokenPosition_loop.simps
        rd_def u16_def CLI_TOKEN_NPOS_def c_str_def upt_rec)
  have rerun: "embeddedCliTokenizeArgs [CHR ''a'', NUL, CHR ''b'', NUL, CHR ''c'', NUL, NUL] (Some 0)
     = Some [CHR ''a'', NUL, NUL, NUL, CHR ''c'', NUL, NUL]"
    by (simp add: embeddedCliTokenizeArgs_def tok_init_def tok_loop.simps rd_def wr_def
        tok_step_def tok_emit_def strchr_found_def separators_def)
  have toks2: "token_list [CHR ''a'', NUL, NUL, NUL, CHR ''c'', NUL, NUL] = Some [''a'']"
    by (simp add: token_list_def embeddedCliGetTokenCount_def GetTokenCount_loop.simps
        token_at_def embeddedCliGetToken_def getTokenPosition_def getTokenPosition_loop.simps
        rd_def u16_def CLI_TOKEN_NPOS_def c_str_def upt_rec)
  show ?thesis using run toks rerun toks2 by simp
qed

text \<open>
  The second run is not a no-op on the tokenized buffer: it changes the byte at index 2.
\<close>

theorem tokenize_twice_counterexample:
  "embeddedCliTokenizeArgs (''a b c'' @ [NUL, NUL]) (Some 0)
     = Some [CHR ''a'', NUL, CHR ''b'', NUL, CHR ''c'', NUL, NUL]
   \<and> embeddedCliTokenizeArgs [CHR ''a'', NUL, CHR ''b'', NUL, CHR ''c'', NUL, NUL] (Some 0)
     \<noteq> Some [CHR ''a'', NUL, CHR ''b'', NUL, CHR ''c'', NUL, NUL]"
  by (simp add: embeddedCliTokenizeArgs_def tok_init_def tok_loop.simps rd_def wr_def
      tok_step_def tok_emit_def strchr_found_def separators_def)

section \<open>Autocompletion: the common prefix of the candidates\<close>

lemma prefix_test: "length prefix \<le> length nm \<Longrightarrow>
  list_all (\<lambda>j. prefix ! j = nm ! j) [0..<length prefix] \<longleftrightarrow> take (length prefix) nm = prefix"
proof -
  assume le: "length prefix \<le> length nm"
  have a: "list_all (\<lambda>j. prefix ! j = nm ! j) [0..<length prefix] \<longleftrightarrow> (\<forall>j<length prefix. prefix ! j = nm ! j)"
    by (auto simp: list_all_iff)
  have b: "take (length prefix) nm = prefix \<longleftrightarrow> (\<forall>j<length prefix. take (length prefix) nm ! j = prefix ! j)"
    using le by (subst list_eq_iff_nth_eq) simp
  show ?thesis unfolding a b by auto
qed

lemma str_rd_lt: "j < length s \<Longrightarrow> str_rd s j = Some (s ! j)"
  by (simp add: str_rd_def rd_def nth_append)

lemma autocomplete_lcp_spec:
  assumes "alen \<le> length f" "alen \<le> length nm" "alen < 65536"
  shows "\<exists>r. autocomplete_lcp (Some f) nm j alen = Some r \<and> r \<le> alen
     \<and> (\<forall>k. j \<le> k \<and> k < r \<longrightarrow> f ! k = nm ! k)
     \<and> (r < alen \<longrightarrow> j \<le> r \<and> f ! r \<noteq> nm ! r)"
  using assms
proof (induction "alen - j" arbitrary: j)
  case 0
  then show ?case by (subst autocomplete_lcp.simps) auto
next
  case (Suc d)
  then have lt: "j < alen" by simp
  have rdf: "str_rd f j = Some (f ! j)" and rdn: "str_rd nm j = Some (nm ! j)"
    using lt Suc.prems by (simp_all add: str_rd_lt)
  show ?case
  proof (cases "f ! j = nm ! j")
    case True
    from Suc.hyps(2) have "d = alen - (j + 1)" by simp
    from Suc.hyps(1) [OF this Suc.prems]
    obtain r where r: "autocomplete_lcp (Some f) nm (j + 1) alen = Some r" "r \<le> alen"
      "\<forall>k. j + 1 \<le> k \<and> k < r \<longrightarrow> f ! k = nm ! k"
      "r < alen \<longrightarrow> j + 1 \<le> r \<and> f ! r \<noteq> nm ! r" by blast
    have "\<forall>k. j \<le> k \<and> k < r \<longrightarrow> f ! k = nm ! k"
    proof (intro allI impI)
      fix k assume "j \<le> k \<and> k < r"
      then show "f ! k = nm ! k" using r(3) True by (cases "k = j") auto
    qed
    moreover have "r < alen \<longrightarrow> j \<le> r \<and> f ! r \<noteq> nm ! r" using r(4) by auto
    ultimately show ?thesis
      using r(1,2) lt rdf rdn True by (subst autocomplete_lcp.simps) simp
  next
    case False
    have "u16 j = j" using lt Suc.prems(3) by (simp add: u16_def)
    then show ?thesis
      using lt rdf rdn False by (subst autocomplete_lcp.simps) auto
  qed
qed

lemma ac_invI:
  assumes "candidateCount cmd = length (candidates prefix pre)" "autocompletedLen cmd < 65536"
    "candidates prefix pre \<noteq> []"
    "firstCandidate cmd = Some (hd (candidates prefix pre))"
    "\<forall>c \<in> set (candidates prefix pre). autocompletedLen cmd \<le> length c"
    "(\<forall>c \<in> set (candidates prefix pre). length c < 65536) \<Longrightarrow> length prefix \<le> autocompletedLen cmd"
    "cSize \<le> length prefix \<Longrightarrow> \<forall>c \<in> set (candidates prefix pre).
        take (autocompletedLen cmd) (hd (candidates prefix pre)) = take (autocompletedLen cmd) c"
    "cSize \<le> length prefix \<Longrightarrow> (\<forall>c \<in> set (candidates prefix pre). length c < 65536) \<Longrightarrow>
       (\<exists>c \<in> set (candidates prefix pre). length c = autocompletedLen cmd)
       \<or> (\<exists>c \<in> set (candidates prefix pre). c ! autocompletedLen cmd \<noteq> hd (candidates prefix pre) ! autocompletedLen cmd)"
  shows "ac_inv cSize prefix pre cmd"
  unfolding ac_inv_def using assms(1-5) assms(6-8) by blast

lemma ac_invD:
  assumes "ac_inv cSize prefix pre cmd" "candidates prefix pre \<noteq> []"
  shows "firstCandidate cmd = Some (hd (candidates prefix pre))"
    and "\<forall>c \<in> set (candidates prefix pre). autocompletedLen cmd \<le> length c"
    and "(\<forall>c \<in> set (candidates prefix pre). length c < 65536) \<Longrightarrow> length prefix \<le> autocompletedLen cmd"
    and "cSize \<le> length prefix \<Longrightarrow> \<forall>c \<in> set (candidates prefix pre).
        take (autocompletedLen cmd) (hd (candidates prefix pre)) = take (autocompletedLen cmd) c"
    and "cSize \<le> length prefix \<Longrightarrow> (\<forall>c \<in> set (candidates prefix pre). length c < 65536) \<Longrightarrow>
       (\<exists>c \<in> set (candidates prefix pre). length c = autocompletedLen cmd)
       \<or> (\<exists>c \<in> set (candidates prefix pre). c ! autocompletedLen cmd \<noteq> hd (candidates prefix pre) ! autocompletedLen cmd)"
  using assms unfolding ac_inv_def by blast+

lemma candidates_snoc:
  "candidates prefix (pre @ [b]) =
     (if is_candidate prefix (name b) then candidates prefix pre @ [name b] else candidates prefix pre)"
  by (simp add: candidates_def)

lemma take_eq_nth: "n \<le> length xs \<Longrightarrow> n \<le> length ys \<Longrightarrow>
  take n xs = take n ys \<longleftrightarrow> (\<forall>k<n. xs ! k = ys ! k)"
  by (auto simp: list_eq_iff_nth_eq)

lemma body_skip:
  assumes "k < length fl" "length (name b) < length prefix \<or>
     \<not> list_all (\<lambda>j. prefix ! j = name b ! j) [0..<length prefix]"
  shows "getAutocompletedCommand_body cSize prefix b k (cmd, fl)
      = Some (cmd, fl[k := UNSET_U8FLAG (fl ! k) BINDING_FLAG_AUTOCOMPLETE])"
proof (cases "length (name b) < length prefix")
  case True
  then show ?thesis using assms(1)
    by (simp add: getAutocompletedCommand_body_def Let_def rd_def wr_def split del: if_split cong: if_cong)
next
  case False
  then show ?thesis using assms
    by (simp add: getAutocompletedCommand_body_def Let_def rd_def wr_def split del: if_split cong: if_cong)
qed

lemma body_first:
  assumes "k < length fl" "length prefix \<le> length (name b)"
     "list_all (\<lambda>j. prefix ! j = name b ! j) [0..<length prefix]"
     "candidateCount cmd = 0"
  shows "getAutocompletedCommand_body cSize prefix b k (cmd, fl)
      = Some (\<lparr>firstCandidate = Some (name b), autocompletedLen = u16 (length (name b)), candidateCount = 1\<rparr>,
           fl[k := UNSET_U8FLAG (fl ! k) BINDING_FLAG_AUTOCOMPLETE OR BINDING_FLAG_AUTOCOMPLETE])"
  using assms
  by (simp add: getAutocompletedCommand_body_def Let_def rd_def wr_def u16_def split del: if_split cong: if_cong)

lemma body_next:
  assumes "k < length fl" "length prefix \<le> length (name b)"
     "list_all (\<lambda>j. prefix ! j = name b ! j) [0..<length prefix]"
     "candidateCount cmd \<noteq> 0" "u16 (candidateCount cmd + 1) \<noteq> 1"
  shows "getAutocompletedCommand_body cSize prefix b k (cmd, fl)
      = do { alen' \<leftarrow> autocomplete_lcp (firstCandidate cmd) (name b) cSize
                 (if length (name b) < autocompletedLen cmd then u16 (length (name b)) else autocompletedLen cmd);
             Some (\<lparr>firstCandidate = firstCandidate cmd, autocompletedLen = alen',
                   candidateCount = u16 (candidateCount cmd + 1)\<rparr>,
           fl[k := UNSET_U8FLAG (fl ! k) BINDING_FLAG_AUTOCOMPLETE OR BINDING_FLAG_AUTOCOMPLETE]) }"
  using assms
  by (simp add: getAutocompletedCommand_body_def Let_def rd_def wr_def split del: if_split cong: if_cong)

lemma body_inv:
  assumes inv: "ac_inv cSize prefix pre cmd" and k: "k < length fl"
    and cnt: "length pre < 65535" and pne: "prefix \<noteq> []"
  shows "\<exists>cmd' fl'. getAutocompletedCommand_body cSize prefix b k (cmd, fl) = Some (cmd', fl')
           \<and> length fl' = length fl \<and> ac_inv cSize prefix (pre @ [b]) cmd'"
proof (cases "is_candidate prefix (name b)")
  case False
  then have "length (name b) < length prefix \<or>
     \<not> list_all (\<lambda>j. prefix ! j = name b ! j) [0..<length prefix]"
    unfolding is_candidate_def using prefix_test [of prefix "name b"] by fastforce
  then have "getAutocompletedCommand_body cSize prefix b k (cmd, fl)
      = Some (cmd, fl[k := UNSET_U8FLAG (fl ! k) BINDING_FLAG_AUTOCOMPLETE])"
    using k by (rule body_skip [rotated])
  moreover have "ac_inv cSize prefix (pre @ [b]) cmd"
  proof -
    have eq: "candidates prefix (pre @ [b]) = candidates prefix pre"
      using False by (simp add: candidates_snoc)
    show ?thesis unfolding ac_inv_def eq using inv unfolding ac_inv_def .
  qed
  ultimately show ?thesis by simp
next
  case True
  let ?nm = "name b"
  let ?cs = "candidates prefix pre"
  have lp: "length prefix \<le> length ?nm" and tk: "take (length prefix) ?nm = prefix"
    using True unfolding is_candidate_def by blast+
  have test: "list_all (\<lambda>j. prefix ! j = ?nm ! j) [0..<length prefix]"
    using prefix_test [OF lp] tk by blast
  have snoc: "candidates prefix (pre @ [b]) = ?cs @ [?nm]"
    using True by (simp add: candidates_snoc)
  have lcs: "length ?cs \<le> length pre" by (simp add: candidates_def)
  have u16le: "u16 (length ?nm) \<le> length ?nm" by (simp add: u16_def)
  have u16lt: "u16 (length ?nm) < 65536" by (simp add: u16_def)
  have u16len: "u16 (length ?nm) = length ?nm" if "length ?nm < 65536"
    using that by (simp add: u16_def)
  have cc: "candidateCount cmd = length ?cs" using inv by (simp add: ac_inv_def)
  have u16cnt: "u16 (candidateCount cmd + 1) = length ?cs + 1"
    using cc lcs cnt by (simp add: u16_def)
  let ?fl2 = "fl[k := UNSET_U8FLAG (fl ! k) BINDING_FLAG_AUTOCOMPLETE OR BINDING_FLAG_AUTOCOMPLETE]"
  show ?thesis
  proof (cases "?cs = []")
    case Nil: True
    let ?cmd' = "\<lparr>firstCandidate = Some ?nm, autocompletedLen = u16 (length ?nm), candidateCount = 1\<rparr>"
    have "getAutocompletedCommand_body cSize prefix b k (cmd, fl) = Some (?cmd', ?fl2)"
      using body_first [OF k lp test, of cmd cSize] cc Nil by simp
    moreover have "ac_inv cSize prefix (pre @ [b]) ?cmd'"
      unfolding ac_inv_def snoc Nil using u16le u16lt lp u16len by auto
    ultimately show ?thesis by simp
  next
    case False
    let ?f = "hd ?cs"
    let ?a0 = "autocompletedLen cmd"
    define a1 where "a1 = (if length ?nm < ?a0 then u16 (length ?nm) else ?a0)"
    note D = ac_invD [OF inv False]
    have a0: "?a0 < 65536" using inv by (simp add: ac_inv_def)
    have first: "firstCandidate cmd = Some ?f" by (rule D(1))
    have fin: "?f \<in> set ?cs" using False by simp
    have a0f: "?a0 \<le> length ?f" using D(2) fin by blast
    have a1: "a1 \<le> length ?f" "a1 \<le> length ?nm" "a1 < 65536" "a1 \<le> ?a0"
      unfolding a1_def using a0f a0 u16le u16lt by (simp_all split: if_splits)
    from autocomplete_lcp_spec [OF a1(1,2,3), of cSize]
    obtain r where r: "autocomplete_lcp (Some ?f) ?nm cSize a1 = Some r" "r \<le> a1"
      "\<forall>j. cSize \<le> j \<and> j < r \<longrightarrow> ?f ! j = ?nm ! j"
      "r < a1 \<longrightarrow> cSize \<le> r \<and> ?f ! r \<noteq> ?nm ! r"
      by blast
    let ?cmd' = "\<lparr>firstCandidate = Some ?f, autocompletedLen = r, candidateCount = length ?cs + 1\<rparr>"
    have cnz: "candidateCount cmd \<noteq> 0" using cc False by simp
    have body: "getAutocompletedCommand_body cSize prefix b k (cmd, fl) = Some (?cmd', ?fl2)"
    proof -
      have "u16 (candidateCount cmd + 1) \<noteq> 1" using u16cnt False by simp
      from body_next [OF k lp test cnz this, of cSize] show ?thesis
        unfolding a1_def [symmetric] first r(1) u16cnt by simp
    qed
    have fcand: "take (length prefix) ?f = prefix" and flen: "length prefix \<le> length ?f"
      using fin unfolding candidates_def is_candidate_def by fastforce+
    have pre_eq: "?nm ! j = ?f ! j" if "j < length prefix" for j
    proof -
      have "?nm ! j = take (length prefix) ?nm ! j" "?f ! j = take (length prefix) ?f ! j"
        using that by simp_all
      then show ?thesis unfolding tk fcand by simp
    qed
    have ra0: "r \<le> ?a0" using r(2) a1(4) by linarith
    have rn: "r \<le> length ?nm" using r(2) a1(2) by linarith
    have rf: "r \<le> length ?f" using r(2) a1(1) by linarith
    have rb: "r < 65536" using r(2) a1(3) by linarith
    have hd': "hd (?cs @ [?nm]) = ?f" using False by simp
    have sel: "autocompletedLen ?cmd' = r" "firstCandidate ?cmd' = Some ?f"
      "candidateCount ?cmd' = length ?cs + 1" by simp_all
    have le': "\<forall>c \<in> set (?cs @ [?nm]). r \<le> length c"
    proof
      fix c assume "c \<in> set (?cs @ [?nm])"
      then have "c \<in> set ?cs \<or> c = ?nm" by auto
      then show "r \<le> length c"
      proof
        assume "c \<in> set ?cs"
        then have "?a0 \<le> length c" using D(2) by blast
        then show ?thesis using ra0 by linarith
      next
        assume "c = ?nm"
        then show ?thesis using rn by simp
      qed
    qed
    have lo': "length prefix \<le> r" if short: "\<forall>c \<in> set (?cs @ [?nm]). length c < 65536"
    proof -
      have "\<forall>c \<in> set ?cs. length c < 65536" using short by simp
      then have pa: "length prefix \<le> ?a0" by (rule D(3))
      have "length ?nm < 65536" using short by simp
      then have "a1 = length ?nm \<or> a1 = ?a0" unfolding a1_def using u16len by auto
      then have pa1: "length prefix \<le> a1" using pa lp by auto
      show ?thesis
      proof (cases "r < a1")
        case False
        then show ?thesis using r(2) pa1 by linarith
      next
        case True
        then have ne: "?f ! r \<noteq> ?nm ! r" using r(4) by simp
        show ?thesis
        proof (rule ccontr)
          assume "\<not> length prefix \<le> r"
          then have "r < length prefix" by simp
          from pre_eq [OF this] ne show False by simp
        qed
      qed
    qed
    have eq': "\<forall>c \<in> set (?cs @ [?nm]). take r (hd (?cs @ [?nm])) = take r c"
      if al: "cSize \<le> length prefix"
      unfolding hd'
    proof
      fix c assume "c \<in> set (?cs @ [?nm])"
      then have "c \<in> set ?cs \<or> c = ?nm" by auto
      then show "take r ?f = take r c"
      proof
        assume c: "c \<in> set ?cs"
        have "take ?a0 ?f = take ?a0 c" using D(4) [OF al] c by blast
        then have "take r (take ?a0 ?f) = take r (take ?a0 c)" by simp
        then show ?thesis using ra0 by (simp add: min_def)
      next
        assume c: "c = ?nm"
        have "\<forall>j<r. ?f ! j = ?nm ! j"
        proof (intro allI impI)
          fix j assume j: "j < r"
          show "?f ! j = ?nm ! j"
          proof (cases "j < cSize")
            case True
            then have "j < length prefix" using al by linarith
            from pre_eq [OF this] show ?thesis by simp
          next
            case False
            then show ?thesis using r(3) j by simp
          qed
        qed
        then show ?thesis unfolding c using rn rf by (simp add: take_eq_nth)
      qed
    qed
    have mx': "(\<exists>c \<in> set (?cs @ [?nm]). length c = r)
        \<or> (\<exists>c \<in> set (?cs @ [?nm]). c ! r \<noteq> hd (?cs @ [?nm]) ! r)"
      if al: "cSize \<le> length prefix" and short: "\<forall>c \<in> set (?cs @ [?nm]). length c < 65536"
      unfolding hd'
    proof (cases "r < a1")
      case True
      then have "?nm ! r \<noteq> ?f ! r" using r(4) by auto
      then show "(\<exists>c \<in> set (?cs @ [?nm]). length c = r) \<or> (\<exists>c \<in> set (?cs @ [?nm]). c ! r \<noteq> ?f ! r)"
        by simp
    next
      case False
      then have ra: "r = a1" using r(2) by linarith
      have "length ?nm < 65536" using short by simp
      then have a1cases: "a1 = length ?nm \<or> a1 = ?a0" unfolding a1_def using u16len by auto
      show "(\<exists>c \<in> set (?cs @ [?nm]). length c = r) \<or> (\<exists>c \<in> set (?cs @ [?nm]). c ! r \<noteq> ?f ! r)"
      proof (cases "a1 = length ?nm")
        case True
        then show ?thesis using ra by simp
      next
        case False
        then have e: "r = ?a0" using a1cases ra by simp
        have "\<forall>c \<in> set ?cs. length c < 65536" using short by simp
        from D(5) [OF al this] show ?thesis unfolding e by auto
      qed
    qed
    have "ac_inv cSize prefix (pre @ [b]) ?cmd'"
    proof (rule ac_invI)
      show "candidateCount ?cmd' = length (candidates prefix (pre @ [b]))"
        unfolding snoc sel by simp
      show "autocompletedLen ?cmd' < 65536" unfolding sel by (rule rb)
      show "candidates prefix (pre @ [b]) \<noteq> []" unfolding snoc by simp
      show "firstCandidate ?cmd' = Some (hd (candidates prefix (pre @ [b])))"
        unfolding snoc hd' sel ..
      show "\<forall>c\<in>set (candidates prefix (pre @ [b])). autocompletedLen ?cmd' \<le> length c"
        unfolding snoc sel by (rule le')
      show "length prefix \<le> autocompletedLen ?cmd'"
        if "\<forall>c\<in>set (candidates prefix (pre @ [b])). length c < 65536"
        using that unfolding snoc sel by (rule lo')
      show "\<forall>c\<in>set (candidates prefix (pre @ [b])).
          take (autocompletedLen ?cmd') (hd (candidates prefix (pre @ [b]))) = take (autocompletedLen ?cmd') c"
        if "cSize \<le> length prefix"
        using that unfolding snoc sel by (rule eq')
      show "(\<exists>c\<in>set (candidates prefix (pre @ [b])). length c = autocompletedLen ?cmd') \<or>
          (\<exists>c\<in>set (candidates prefix (pre @ [b])). c ! autocompletedLen ?cmd'
             \<noteq> hd (candidates prefix (pre @ [b])) ! autocompletedLen ?cmd')"
        if "cSize \<le> length prefix" "\<forall>c\<in>set (candidates prefix (pre @ [b])). length c < 65536"
        using that unfolding snoc sel by (rule mx')
    qed
    with body show ?thesis by simp
  qed
qed

lemma loop_inv:
  assumes "ac_inv cSize prefix pre cmd" "k + length bs \<le> length fl"
    "length pre + length bs < 65536" "prefix \<noteq> []"
  shows "\<exists>cmd' fl'. getAutocompletedCommand_loop cSize prefix bs k (cmd, fl) = Some (cmd', fl')
           \<and> length fl' = length fl \<and> ac_inv cSize prefix (pre @ bs) cmd'"
  using assms
proof (induction bs arbitrary: pre cmd fl k)
  case Nil
  then show ?case by simp
next
  case (Cons b bs)
  from body_inv [OF Cons.prems(1), of k fl b] Cons.prems
  obtain cmd1 fl1 where b1: "getAutocompletedCommand_body cSize prefix b k (cmd, fl) = Some (cmd1, fl1)"
    "length fl1 = length fl" "ac_inv cSize prefix (pre @ [b]) cmd1" by auto
  from Cons.IH [OF b1(3), of "k + 1" fl1] Cons.prems b1(2)
  obtain cmd' fl' where "getAutocompletedCommand_loop cSize prefix bs (k + 1) (cmd1, fl1) = Some (cmd', fl')"
    "length fl' = length fl1" "ac_inv cSize prefix ((pre @ [b]) @ bs) cmd'" by auto
  then show ?case using b1 by simp
qed

lemma getAutocompletedCommand_inv:
  assumes "length (bindings cli) \<le> length (bindingsFlags cli)" "length (bindings cli) < 65536"
    "prefix \<noteq> []"
  shows "\<exists>cmd fl. getAutocompletedCommand cli prefix = Some (cmd, fl)
           \<and> length fl = length (bindingsFlags cli) \<and> ac_inv (cmdSize cli) prefix (bindings cli) cmd"
proof (cases "bindings cli = []")
  case True
  then show ?thesis
    by (simp add: getAutocompletedCommand_def bindingsCount_def ac_inv_def candidates_def)
next
  case False
  have init: "ac_inv (cmdSize cli) prefix [] \<lparr>firstCandidate = None, autocompletedLen = 0, candidateCount = 0\<rparr>"
    by (simp add: ac_inv_def candidates_def)
  from loop_inv [OF init, of 0 "bindings cli" "bindingsFlags cli"] assms False
  show ?thesis
    by (simp add: getAutocompletedCommand_def bindingsCount_def Let_def)
qed

text \<open>
  C2 (as amended). For a binding table and a non-empty prefix with at least two
  candidates, \<^verbatim>\<open>getAutocompletedCommand\<close> returns the number of candidates and an
  \<^verbatim>\<open>autocompletedLen\<close> that is at most the length of every candidate. It is at least
  the length of the prefix when the candidates are shorter than 65536 bytes. Up to it all
  candidates are byte-identical when \<^verbatim>\<open>cmdSize\<close> is at most the length of the prefix.
  Under both conditions it cannot be extended: it is the length of a candidate, or two
  candidates differ there. (The number of bindings is a \<^verbatim>\<open>uint16_t\<close> in the engine.)
\<close>

theorem autocomplete_common_prefix:
  assumes "length (bindings cli) \<le> length (bindingsFlags cli)" and "length (bindings cli) < 65536"
    and "prefix \<noteq> []"
    and "2 \<le> length (candidates prefix (bindings cli))"
  shows "\<exists>cmd fl. getAutocompletedCommand cli prefix = Some (cmd, fl)
     \<and> candidateCount cmd = length (candidates prefix (bindings cli))
     \<and> (\<forall>c \<in> set (candidates prefix (bindings cli)). autocompletedLen cmd \<le> length c)
     \<and> ((\<forall>c \<in> set (candidates prefix (bindings cli)). length c < 65536)
          \<longrightarrow> length prefix \<le> autocompletedLen cmd)
     \<and> (cmdSize cli \<le> length prefix
          \<longrightarrow> (\<forall>c \<in> set (candidates prefix (bindings cli)). \<forall>d \<in> set (candidates prefix (bindings cli)).
                 take (autocompletedLen cmd) c = take (autocompletedLen cmd) d))
     \<and> (cmdSize cli \<le> length prefix \<and> (\<forall>c \<in> set (candidates prefix (bindings cli)). length c < 65536)
          \<longrightarrow> (\<exists>c \<in> set (candidates prefix (bindings cli)). length c = autocompletedLen cmd)
              \<or> (\<exists>c \<in> set (candidates prefix (bindings cli)). \<exists>d \<in> set (candidates prefix (bindings cli)).
                    c ! autocompletedLen cmd \<noteq> d ! autocompletedLen cmd))"
proof -
  let ?cs = "candidates prefix (bindings cli)"
  from getAutocompletedCommand_inv [OF assms(1,2,3)]
  obtain cmd fl where g: "getAutocompletedCommand cli prefix = Some (cmd, fl)"
    and inv: "ac_inv (cmdSize cli) prefix (bindings cli) cmd" by blast
  have ne: "?cs \<noteq> []" using assms(4) by auto
  let ?a = "autocompletedLen cmd"
  note D = ac_invD [OF inv ne]
  have cnt: "candidateCount cmd = length ?cs" using inv by (simp add: ac_inv_def)
  have hd_in: "hd ?cs \<in> set ?cs" using ne by simp
  have le: "\<forall>c \<in> set ?cs. ?a \<le> length c" by (rule D(2))
  have lo: "(\<forall>c \<in> set ?cs. length c < 65536) \<longrightarrow> length prefix \<le> ?a" using D(3) by blast
  have eq: "cmdSize cli \<le> length prefix \<longrightarrow> (\<forall>c \<in> set ?cs. \<forall>d \<in> set ?cs. take ?a c = take ?a d)"
  proof
    assume "cmdSize cli \<le> length prefix"
    from D(4) [OF this] show "\<forall>c \<in> set ?cs. \<forall>d \<in> set ?cs. take ?a c = take ?a d" by metis
  qed
  have mx: "cmdSize cli \<le> length prefix \<and> (\<forall>c \<in> set ?cs. length c < 65536)
      \<longrightarrow> (\<exists>c \<in> set ?cs. length c = ?a) \<or> (\<exists>c \<in> set ?cs. \<exists>d \<in> set ?cs. c ! ?a \<noteq> d ! ?a)"
  proof
    assume h: "cmdSize cli \<le> length prefix \<and> (\<forall>c \<in> set ?cs. length c < 65536)"
    then have "(\<exists>c \<in> set ?cs. length c = ?a) \<or> (\<exists>c \<in> set ?cs. c ! ?a \<noteq> hd ?cs ! ?a)"
      using D(5) by blast
    then show "(\<exists>c \<in> set ?cs. length c = ?a) \<or> (\<exists>c \<in> set ?cs. \<exists>d \<in> set ?cs. c ! ?a \<noteq> d ! ?a)"
      using hd_in by blast
  qed
  show ?thesis using g cnt le lo eq mx by blast
qed

theorem autocomplete_common_prefix_witness:
  "2 \<le> length (candidates ''g'' [example_binding ''help'', example_binding ''get-led'', example_binding ''get-adc''])
   \<and> cmdSize (example_cli [example_binding ''help'', example_binding ''get-led'', example_binding ''get-adc''] ''g'')
       \<le> length ''g''
   \<and> (\<exists>cmd fl. getAutocompletedCommand
          (example_cli [example_binding ''help'', example_binding ''get-led'', example_binding ''get-adc''] ''g'') ''g''
          = Some (cmd, fl) \<and> candidateCount cmd = 2 \<and> length ''g'' \<le> autocompletedLen cmd
        \<and> autocompletedLen cmd \<le> length ''get-led'' \<and> autocompletedLen cmd \<le> length ''get-adc''
        \<and> take (autocompletedLen cmd) ''get-led'' = take (autocompletedLen cmd) ''get-adc'')"
proof -
  let ?bs = "[example_binding ''help'', example_binding ''get-led'', example_binding ''get-adc'']"
  have cs: "candidates ''g'' ?bs = [''get-led'', ''get-adc'']"
    by (simp add: candidates_def is_candidate_def example_binding_def)
  have b: "bindings (example_cli ?bs ''g'') = ?bs" by (simp add: example_cli_def)
  have sz: "cmdSize (example_cli ?bs ''g'') \<le> length ''g''" by (simp add: example_cli_def)
  have h: "length (bindings (example_cli ?bs ''g'')) \<le> length (bindingsFlags (example_cli ?bs ''g''))"
    "length (bindings (example_cli ?bs ''g'')) < 65536"
    "''g'' \<noteq> []"
    "2 \<le> length (candidates ''g'' (bindings (example_cli ?bs ''g'')))"
    unfolding b cs by (simp_all add: example_cli_def example_binding_def)
  from autocomplete_common_prefix [OF h] obtain cmd fl where
    g: "getAutocompletedCommand (example_cli ?bs ''g'') ''g'' = Some (cmd, fl)"
    and c: "candidateCount cmd = length (candidates ''g'' (bindings (example_cli ?bs ''g'')))"
    and le: "\<forall>c \<in> set (candidates ''g'' (bindings (example_cli ?bs ''g''))). autocompletedLen cmd \<le> length c"
    and lo: "(\<forall>c \<in> set (candidates ''g'' (bindings (example_cli ?bs ''g''))). length c < 65536)
          \<longrightarrow> length ''g'' \<le> autocompletedLen cmd"
    and eq: "cmdSize (example_cli ?bs ''g'') \<le> length ''g''
          \<longrightarrow> (\<forall>c \<in> set (candidates ''g'' (bindings (example_cli ?bs ''g''))).
               \<forall>d \<in> set (candidates ''g'' (bindings (example_cli ?bs ''g''))).
                 take (autocompletedLen cmd) c = take (autocompletedLen cmd) d)"
    by (elim exE conjE)
  have c2: "candidateCount cmd = 2" using c unfolding b cs by simp
  have lo2: "length ''g'' \<le> autocompletedLen cmd" using lo unfolding b cs by simp
  have le2: "autocompletedLen cmd \<le> length ''get-led''" "autocompletedLen cmd \<le> length ''get-adc''"
    using le unfolding b cs by simp_all
  have eq2: "take (autocompletedLen cmd) ''get-led'' = take (autocompletedLen cmd) ''get-adc''"
  proof -
    from eq sz have e: "\<forall>c \<in> set (candidates ''g'' (bindings (example_cli ?bs ''g''))).
               \<forall>d \<in> set (candidates ''g'' (bindings (example_cli ?bs ''g''))).
                 take (autocompletedLen cmd) c = take (autocompletedLen cmd) d"
      by (rule mp)
    have m1: "''get-led'' \<in> set (candidates ''g'' (bindings (example_cli ?bs ''g'')))"
      and m2: "''get-adc'' \<in> set (candidates ''g'' (bindings (example_cli ?bs ''g'')))"
      unfolding b cs by simp_all
    from bspec [OF bspec [OF e m1] m2] show ?thesis .
  qed
  have "\<exists>cmd fl. getAutocompletedCommand (example_cli ?bs ''g'') ''g'' = Some (cmd, fl)
        \<and> candidateCount cmd = 2 \<and> length ''g'' \<le> autocompletedLen cmd
        \<and> autocompletedLen cmd \<le> length ''get-led'' \<and> autocompletedLen cmd \<le> length ''get-adc''
        \<and> take (autocompletedLen cmd) ''get-led'' = take (autocompletedLen cmd) ''get-adc''"
    using g c2 lo2 le2 eq2 by (intro exI conjI)
  moreover have "2 \<le> length (candidates ''g'' ?bs)" unfolding cs by simp
  ultimately show ?thesis using sz by (intro conjI)
qed

lemma long_name_facts: "length long_name = 65536" "long_name ! 0 = CHR ''a''"
  by (simp_all add: long_name_def)

lemma long_body:
  "getAutocompletedCommand_body (Suc 0) ''a'' (example_binding long_name) 0
     (\<lparr>firstCandidate = None, autocompletedLen = 0, candidateCount = 0\<rparr>, fl # fls)
   = Some (\<lparr>firstCandidate = Some long_name, autocompletedLen = 0, candidateCount = 1\<rparr>,
           (UNSET_U8FLAG fl BINDING_FLAG_AUTOCOMPLETE OR BINDING_FLAG_AUTOCOMPLETE) # fls)"
proof -
  have n: "name (example_binding long_name) = long_name" by (simp add: example_binding_def)
  have t: "list_all (\<lambda>j. ''a'' ! j = name (example_binding long_name) ! j) [0..<length ''a'']"
    unfolding n by (simp add: long_name_facts)
  have l: "length ''a'' \<le> length (name (example_binding long_name))"
    unfolding n by (simp add: long_name_facts)
  show ?thesis
    using body_first [of 0 "fl # fls" "''a''" "example_binding long_name"
        "\<lparr>firstCandidate = None, autocompletedLen = 0, candidateCount = 0\<rparr>" "Suc 0", OF _ l t]
    unfolding n by (simp add: long_name_facts u16_def)
qed

lemma long_body2:
  "getAutocompletedCommand_body (Suc 0) ''a'' (example_binding (long_name @ ''b'')) (Suc 0)
     (\<lparr>firstCandidate = Some long_name, autocompletedLen = 0, candidateCount = Suc 0\<rparr>, [fl0, fl])
   = Some (\<lparr>firstCandidate = Some long_name, autocompletedLen = 0, candidateCount = 2\<rparr>,
           [fl0, UNSET_U8FLAG fl BINDING_FLAG_AUTOCOMPLETE OR BINDING_FLAG_AUTOCOMPLETE])"
proof -
  have n: "name (example_binding (long_name @ ''b'')) = long_name @ ''b''" by (simp add: example_binding_def)
  have t: "list_all (\<lambda>j. ''a'' ! j = name (example_binding (long_name @ ''b'')) ! j) [0..<length ''a'']"
    unfolding n by (simp add: long_name_facts nth_append)
  have l: "length ''a'' \<le> length (name (example_binding (long_name @ ''b'')))"
    unfolding n by (simp add: long_name_facts)
  have lcp: "autocomplete_lcp (Some long_name) (long_name @ ''b'') (Suc 0) 0 = Some 0"
    by (subst autocomplete_lcp.simps) simp
  show ?thesis
    using body_next [of "Suc 0" "[fl0, fl]" "''a''" "example_binding (long_name @ ''b'')"
        "\<lparr>firstCandidate = Some long_name, autocompletedLen = 0, candidateCount = Suc 0\<rparr>" "Suc 0", OF _ l t]
    unfolding n by (simp add: long_name_facts u16_def lcp)
qed

lemma long_name_candidates: "candidates ''a'' [example_binding long_name, example_binding (long_name @ ''b'')]
   = [long_name, long_name @ ''b'']"
  by (simp add: candidates_def is_candidate_def example_binding_def long_name_def)

lemma split_cli_eval:
  "map_option fst (getAutocompletedCommand split_cli ''foo'')
     = Some \<lparr>firstCandidate = Some ''fooA'', autocompletedLen = 4, candidateCount = 2\<rparr>"
  by (simp add: split_cli_def getAutocompletedCommand_def bindingsCount_def example_cli_def
      example_binding_def getAutocompletedCommand_body_def Let_def rd_def wr_def u16_def
      autocomplete_lcp.simps str_rd_def split del: if_split cong: if_cong)

lemma split_cli_facts:
  "c_str (cmdBuffer split_cli) 0 = Some ''foo''" "cmdSize split_cli = 7"
  "candidates ''foo'' (bindings split_cli) = [''fooA'', ''fooB'']"
  by (simp_all add: split_cli_def example_cli_def example_binding_def c_str_def candidates_def
      is_candidate_def)

text \<open>
  Two ways in which the claim fails. With a name of 65536 bytes the cast
  \<^verbatim>\<open>(uint16_t) len\<close> gives 0: two candidates for the prefix \<^verbatim>\<open>"a"\<close>, and an
  \<^verbatim>\<open>autocompletedLen\<close> below the length of the prefix. And in an engine whose command
  buffer holds \<^verbatim>\<open>foo\<close>, NUL, \<^verbatim>\<open>bar\<close> with \<^verbatim>\<open>cmdSize = 7\<close>, the comparison of the
  two candidates \<^verbatim>\<open>fooA\<close> and \<^verbatim>\<open>fooB\<close> of the prefix \<^verbatim>\<open>"foo"\<close> starts at index 7
  and so never runs: \<^verbatim>\<open>autocompletedLen\<close> is 4, where the candidates differ at index 3.
\<close>

theorem autocomplete_common_prefix_counterexample:
  "candidates ''a'' [example_binding long_name, example_binding (long_name @ ''b'')]
     = [long_name, long_name @ ''b'']
   \<and> map_option fst (getAutocompletedCommand
        (example_cli [example_binding long_name, example_binding (long_name @ ''b'')] ''a'') ''a'')
     = Some \<lparr>firstCandidate = Some long_name, autocompletedLen = 0, candidateCount = 2\<rparr>
   \<and> \<not> length ''a'' \<le> (0 :: nat)
   \<and> c_str (cmdBuffer split_cli) 0 = Some ''foo''
   \<and> candidates ''foo'' (bindings split_cli) = [''fooA'', ''fooB'']
   \<and> map_option fst (getAutocompletedCommand split_cli ''foo'')
     = Some \<lparr>firstCandidate = Some ''fooA'', autocompletedLen = 4, candidateCount = 2\<rparr>
   \<and> take 4 ''fooA'' \<noteq> take 4 ''fooB''"
proof -
  have long: "candidates ''a'' [example_binding long_name, example_binding (long_name @ ''b'')]
     = [long_name, long_name @ ''b'']
   \<and> map_option fst (getAutocompletedCommand
        (example_cli [example_binding long_name, example_binding (long_name @ ''b'')] ''a'') ''a'')
     = Some \<lparr>firstCandidate = Some long_name, autocompletedLen = 0, candidateCount = 2\<rparr>
   \<and> \<not> length ''a'' \<le> (0 :: nat)"
    by (simp add: getAutocompletedCommand_def bindingsCount_def example_cli_def long_body long_body2
        long_name_candidates)
  have diff: "take 4 ''fooA'' \<noteq> take 4 ''fooB''" by simp
  show ?thesis using long split_cli_facts(1,3) split_cli_eval diff by (intro conjI) simp_all
qed

section \<open>The live repaint always returns\<close>

lemma those_map_Some: "(\<And>x. x \<in> set xs \<Longrightarrow> f x = Some (g x)) \<Longrightarrow> those (map f xs) = Some (map g xs)"
  by (induction xs) simp_all

lemma candidate_chars_in_bounds:
  assumes "b \<le> length f"
  shows "candidate_chars (Some f) a b = Some (map ((!) f) [a..<b])"
proof (cases "b \<le> a")
  case True
  then show ?thesis by (simp add: candidate_chars_def)
next
  case False
  have "those (map (str_rd f) [a..<b]) = Some (map ((!) f) [a..<b])"
    by (rule those_map_Some) (use assms in \<open>simp add: str_rd_lt\<close>)
  then show ?thesis using False by (simp add: candidate_chars_def)
qed

lemma autocomplete_lcp_total:
  assumes "alen \<le> length f" "alen \<le> length nm"
  shows "\<exists>r. autocomplete_lcp (Some f) nm j alen = Some r \<and> r \<le> alen"
  using assms
proof (induction "alen - j" arbitrary: j)
  case 0
  then show ?case by (subst autocomplete_lcp.simps) auto
next
  case (Suc d)
  then have lt: "j < alen" by simp
  have rdf: "str_rd f j = Some (f ! j)" and rdn: "str_rd nm j = Some (nm ! j)"
    using lt Suc.prems by (simp_all add: str_rd_lt)
  show ?case
  proof (cases "f ! j = nm ! j")
    case True
    from Suc.hyps(2) have "d = alen - (j + 1)" by simp
    from Suc.hyps(1) [OF this Suc.prems]
    obtain r where r: "autocomplete_lcp (Some f) nm (j + 1) alen = Some r" "r \<le> alen" by blast
    then show ?thesis
      using lt rdf rdn True by (subst autocomplete_lcp.simps) auto
  next
    case False
    have "u16 j \<le> j" by (simp add: u16_def)
    then have "u16 j \<le> alen" using lt by linarith
    then show ?thesis
      using lt rdf rdn False by (subst autocomplete_lcp.simps) auto
  qed
qed

lemma body_total:
  assumes inv: "ac_inv0 cmd" and k: "k < length fl"
  shows "\<exists>cmd' fl'. getAutocompletedCommand_body cSize prefix b k (cmd, fl) = Some (cmd', fl')
           \<and> length fl' = length fl \<and> ac_inv0 cmd'"
proof (cases "length (name b) < length prefix \<or>
     \<not> list_all (\<lambda>j. prefix ! j = name b ! j) [0..<length prefix]")
  case True
  from body_skip [OF k True] inv show ?thesis by simp
next
  case False
  then have lp: "length prefix \<le> length (name b)"
    and test: "list_all (\<lambda>j. prefix ! j = name b ! j) [0..<length prefix]" by auto
  have u16le: "u16 n \<le> n" for n by (simp add: u16_def)
  have u16lt: "u16 n < 65536" for n by (simp add: u16_def)
  show ?thesis
  proof (cases "candidateCount cmd = 0")
    case True
    from body_first [OF k lp test True, of cSize] u16le [of "length (name b)"]
    show ?thesis by (simp add: ac_inv0_def)
  next
    case nz: False
    from inv nz obtain f where f: "firstCandidate cmd = Some f" "autocompletedLen cmd \<le> length f"
      and c: "candidateCount cmd < 65536"
      unfolding ac_inv0_def by blast
    have ne1: "u16 (candidateCount cmd + 1) \<noteq> 1"
      using nz c by (auto simp: u16_def mod_Suc)
    define a1 where "a1 = (if length (name b) < autocompletedLen cmd then u16 (length (name b)) else autocompletedLen cmd)"
    have a1: "a1 \<le> length f" "a1 \<le> length (name b)"
      unfolding a1_def using f(2) u16le [of "length (name b)"] by (auto split: if_splits)
    from autocomplete_lcp_total [OF a1, of cSize]
    obtain r where r: "autocomplete_lcp (Some f) (name b) cSize a1 = Some r" "r \<le> a1" by blast
    have "r \<le> length f" using r(2) a1(1) by linarith
    then show ?thesis
      using body_next [OF k lp test nz ne1, of cSize] r(1) f(1) u16lt [of "candidateCount cmd + 1"]
      unfolding a1_def [symmetric] by (simp add: ac_inv0_def)
  qed
qed

lemma loop_total:
  assumes "ac_inv0 cmd" "k + length bs \<le> length fl"
  shows "\<exists>cmd' fl'. getAutocompletedCommand_loop cSize prefix bs k (cmd, fl) = Some (cmd', fl')
           \<and> length fl' = length fl \<and> ac_inv0 cmd'"
  using assms
proof (induction bs arbitrary: cmd fl k)
  case Nil
  then show ?case by simp
next
  case (Cons b bs)
  from body_total [OF Cons.prems(1), of k fl cSize prefix b] Cons.prems(2)
  obtain cmd1 fl1 where b1: "getAutocompletedCommand_body cSize prefix b k (cmd, fl) = Some (cmd1, fl1)"
    "length fl1 = length fl" "ac_inv0 cmd1" by auto
  from Cons.IH [OF b1(3), of "k + 1" fl1] Cons.prems(2) b1(2)
  obtain cmd' fl' where "getAutocompletedCommand_loop cSize prefix bs (k + 1) (cmd1, fl1) = Some (cmd', fl')"
    "length fl' = length fl1" "ac_inv0 cmd'" by auto
  then show ?case using b1 by simp
qed

lemma getAutocompletedCommand_total:
  assumes "length (bindings cli) \<le> length (bindingsFlags cli)"
  shows "\<exists>cmd fl. getAutocompletedCommand cli prefix = Some (cmd, fl)
           \<and> length fl = length (bindingsFlags cli) \<and> ac_inv0 cmd"
proof -
  have init: "ac_inv0 \<lparr>firstCandidate = None, autocompletedLen = 0, candidateCount = 0\<rparr>"
    by (simp add: ac_inv0_def)
  from loop_total [OF init, of 0 "bindings cli" "bindingsFlags cli" "cmdSize cli" prefix] assms
  show ?thesis
    by (auto simp: getAutocompletedCommand_def Let_def init)
qed


section \<open>Autocompletion: the reads of the live repaint\<close>

text \<open>
  C9 (as amended). When the computation returns \<^verbatim>\<open>candidateCount > 0\<close>, the first
  candidate is not \<^verbatim>\<open>NULL\<close> and \<^verbatim>\<open>autocompletedLen \<le> strlen(firstCandidate)\<close>, so
  that every read \<^verbatim>\<open>firstCandidate[i]\<close> of \<^verbatim>\<open>printLiveAutocompletion\<close>, for
  \<^verbatim>\<open>cmdSize \<le> i < autocompletedLen\<close>, is inside the name: this holds for every table
  and every state. Moreover \<^verbatim>\<open>cmdSize \<le> autocompletedLen\<close> when \<^verbatim>\<open>cmdSize\<close> is at
  most the length of the prefix and the candidates are shorter than 65536 bytes (the
  number of bindings being a \<^verbatim>\<open>uint16_t\<close>).
\<close>

theorem live_autocompletion_reads_in_bounds:
  assumes "length (bindings cli) \<le> length (bindingsFlags cli)"
  shows "\<exists>cmd fl. getAutocompletedCommand cli prefix = Some (cmd, fl)
     \<and> (candidateCount cmd > 0 \<longrightarrow>
          (\<exists>f. firstCandidate cmd = Some f
             \<and> autocompletedLen cmd \<le> length f
             \<and> (\<forall>k. cmdSize cli \<le> k \<and> k < autocompletedLen cmd \<longrightarrow> k < length f \<and> str_rd f k = Some (f ! k))
             \<and> candidate_chars (firstCandidate cmd) (cmdSize cli) (autocompletedLen cmd)
                 = Some (map ((!) f) [cmdSize cli..<autocompletedLen cmd])
             \<and> (length (bindings cli) < 65536 \<and> cmdSize cli \<le> length prefix
                  \<and> (\<forall>c \<in> set (candidates prefix (bindings cli)). length c < 65536)
                \<longrightarrow> cmdSize cli \<le> autocompletedLen cmd)))"
proof -
  let ?cs = "candidates prefix (bindings cli)"
  from getAutocompletedCommand_total [OF assms, of prefix]
  obtain cmd fl where g: "getAutocompletedCommand cli prefix = Some (cmd, fl)"
    and inv0: "ac_inv0 cmd" by blast
  have "\<exists>f. firstCandidate cmd = Some f
             \<and> autocompletedLen cmd \<le> length f
             \<and> (\<forall>k. cmdSize cli \<le> k \<and> k < autocompletedLen cmd \<longrightarrow> k < length f \<and> str_rd f k = Some (f ! k))
             \<and> candidate_chars (firstCandidate cmd) (cmdSize cli) (autocompletedLen cmd)
                 = Some (map ((!) f) [cmdSize cli..<autocompletedLen cmd])
             \<and> (length (bindings cli) < 65536 \<and> cmdSize cli \<le> length prefix
                  \<and> (\<forall>c \<in> set ?cs. length c < 65536)
                \<longrightarrow> cmdSize cli \<le> autocompletedLen cmd)"
    if pos: "candidateCount cmd > 0"
  proof -
    from inv0 pos obtain f where first: "firstCandidate cmd = Some f"
      and le: "autocompletedLen cmd \<le> length f"
      unfolding ac_inv0_def by auto
    have rd: "\<forall>k. cmdSize cli \<le> k \<and> k < autocompletedLen cmd \<longrightarrow>
        k < length f \<and> str_rd f k = Some (f ! k)"
      using le by (simp add: str_rd_lt)
    have cc: "candidate_chars (firstCandidate cmd) (cmdSize cli) (autocompletedLen cmd)
                 = Some (map ((!) f) [cmdSize cli..<autocompletedLen cmd])"
      unfolding first by (rule candidate_chars_in_bounds [OF le])
    have lo: "cmdSize cli \<le> autocompletedLen cmd"
      if h: "length (bindings cli) < 65536 \<and> cmdSize cli \<le> length prefix
                  \<and> (\<forall>c \<in> set ?cs. length c < 65536)"
    proof -
      have pne: "prefix \<noteq> []"
      proof
        assume "prefix = []"
        then have "candidateCount cmd = 0" using g by (auto simp: getAutocompletedCommand_def)
        with pos show False by simp
      qed
      from h have nb: "length (bindings cli) < 65536" by simp
      from getAutocompletedCommand_inv [OF assms nb pne] g
      have inv: "ac_inv (cmdSize cli) prefix (bindings cli) cmd" by simp
      then have "candidateCount cmd = length ?cs" by (simp add: ac_inv_def)
      with pos have ne: "?cs \<noteq> []" by auto
      from ac_invD(3) [OF inv ne] h have "length prefix \<le> autocompletedLen cmd" by blast
      with h show ?thesis by linarith
    qed
    show ?thesis using first le rd cc lo by (intro exI [of _ f] conjI impI)
  qed
  then have "getAutocompletedCommand cli prefix = Some (cmd, fl)
     \<and> (candidateCount cmd > 0 \<longrightarrow>
          (\<exists>f. firstCandidate cmd = Some f
             \<and> autocompletedLen cmd \<le> length f
             \<and> (\<forall>k. cmdSize cli \<le> k \<and> k < autocompletedLen cmd \<longrightarrow> k < length f \<and> str_rd f k = Some (f ! k))
             \<and> candidate_chars (firstCandidate cmd) (cmdSize cli) (autocompletedLen cmd)
                 = Some (map ((!) f) [cmdSize cli..<autocompletedLen cmd])
             \<and> (length (bindings cli) < 65536 \<and> cmdSize cli \<le> length prefix
                  \<and> (\<forall>c \<in> set ?cs. length c < 65536)
                \<longrightarrow> cmdSize cli \<le> autocompletedLen cmd)))"
    using g by (intro conjI impI)
  then show ?thesis by (intro exI)
qed

theorem live_autocompletion_reads_in_bounds_witness:
  "cmdSize (example_cli [example_binding ''help'', example_binding ''get-led''] ''g'') \<le> length ''g''
   \<and> (\<exists>cmd fl. getAutocompletedCommand (example_cli [example_binding ''help'', example_binding ''get-led''] ''g'') ''g''
          = Some (cmd, fl)
        \<and> candidateCount cmd = 1
        \<and> (\<exists>f. firstCandidate cmd = Some f
             \<and> cmdSize (example_cli [example_binding ''help'', example_binding ''get-led''] ''g'') \<le> autocompletedLen cmd
             \<and> autocompletedLen cmd \<le> length f
             \<and> candidate_chars (firstCandidate cmd)
                   (cmdSize (example_cli [example_binding ''help'', example_binding ''get-led''] ''g''))
                   (autocompletedLen cmd)
                 = Some (map ((!) f)
                     [cmdSize (example_cli [example_binding ''help'', example_binding ''get-led''] ''g'')..<autocompletedLen cmd])))"
proof -
  let ?bs = "[example_binding ''help'', example_binding ''get-led'']"
  let ?cli = "example_cli ?bs ''g''"
  have h: "length (bindings ?cli) \<le> length (bindingsFlags ?cli)"
    by (simp add: example_cli_def)
  have cs: "candidates ''g'' (bindings ?cli) = [''get-led'']"
    by (simp add: candidates_def is_candidate_def example_binding_def example_cli_def)
  have side: "length (bindings ?cli) < 65536 \<and> cmdSize ?cli \<le> length ''g''
       \<and> (\<forall>c \<in> set (candidates ''g'' (bindings ?cli)). length c < 65536)"
    unfolding cs by (simp add: example_cli_def)
  have ev: "map_option fst (getAutocompletedCommand ?cli ''g'')
      = Some \<lparr>firstCandidate = Some ''get-led'', autocompletedLen = 7, candidateCount = 1\<rparr>"
    by (simp add: getAutocompletedCommand_def bindingsCount_def example_cli_def example_binding_def
      getAutocompletedCommand_body_def Let_def rd_def wr_def u16_def autocomplete_lcp.simps str_rd_def
      split del: if_split cong: if_cong)
  from live_autocompletion_reads_in_bounds [OF h, of "''g''"]
  obtain cmd fl where g: "getAutocompletedCommand ?cli ''g'' = Some (cmd, fl)"
    and imp: "candidateCount cmd > 0 \<longrightarrow>
          (\<exists>f. firstCandidate cmd = Some f
             \<and> autocompletedLen cmd \<le> length f
             \<and> (\<forall>k. cmdSize ?cli \<le> k \<and> k < autocompletedLen cmd \<longrightarrow> k < length f \<and> str_rd f k = Some (f ! k))
             \<and> candidate_chars (firstCandidate cmd) (cmdSize ?cli) (autocompletedLen cmd)
                 = Some (map ((!) f) [cmdSize ?cli..<autocompletedLen cmd])
             \<and> (length (bindings ?cli) < 65536 \<and> cmdSize ?cli \<le> length ''g''
                  \<and> (\<forall>c \<in> set (candidates ''g'' (bindings ?cli)). length c < 65536)
                \<longrightarrow> cmdSize ?cli \<le> autocompletedLen cmd))"
    by (elim exE conjE)
  have c1: "candidateCount cmd = 1" using ev g by simp
  then have "0 < candidateCount cmd" by simp
  with imp have "\<exists>f. firstCandidate cmd = Some f
             \<and> autocompletedLen cmd \<le> length f
             \<and> (\<forall>k. cmdSize ?cli \<le> k \<and> k < autocompletedLen cmd \<longrightarrow> k < length f \<and> str_rd f k = Some (f ! k))
             \<and> candidate_chars (firstCandidate cmd) (cmdSize ?cli) (autocompletedLen cmd)
                 = Some (map ((!) f) [cmdSize ?cli..<autocompletedLen cmd])
             \<and> (length (bindings ?cli) < 65536 \<and> cmdSize ?cli \<le> length ''g''
                  \<and> (\<forall>c \<in> set (candidates ''g'' (bindings ?cli)). length c < 65536)
                \<longrightarrow> cmdSize ?cli \<le> autocompletedLen cmd)"
    by (rule mp)
  then obtain f where f: "firstCandidate cmd = Some f"
    "autocompletedLen cmd \<le> length f"
    "candidate_chars (firstCandidate cmd) (cmdSize ?cli) (autocompletedLen cmd)
       = Some (map ((!) f) [cmdSize ?cli..<autocompletedLen cmd])"
    "length (bindings ?cli) < 65536 \<and> cmdSize ?cli \<le> length ''g''
                  \<and> (\<forall>c \<in> set (candidates ''g'' (bindings ?cli)). length c < 65536)
                \<longrightarrow> cmdSize ?cli \<le> autocompletedLen cmd"
    by (elim exE conjE)
  have lo: "cmdSize ?cli \<le> autocompletedLen cmd" using f(4) side by (rule mp)
  have inner: "\<exists>f. firstCandidate cmd = Some f
             \<and> cmdSize ?cli \<le> autocompletedLen cmd \<and> autocompletedLen cmd \<le> length f
             \<and> candidate_chars (firstCandidate cmd) (cmdSize ?cli) (autocompletedLen cmd)
                 = Some (map ((!) f) [cmdSize ?cli..<autocompletedLen cmd])"
    using f(1,2,3) lo by (intro exI [of _ f] conjI)
  have "getAutocompletedCommand ?cli ''g'' = Some (cmd, fl) \<and> candidateCount cmd = 1
      \<and> (\<exists>f. firstCandidate cmd = Some f
             \<and> cmdSize ?cli \<le> autocompletedLen cmd \<and> autocompletedLen cmd \<le> length f
             \<and> candidate_chars (firstCandidate cmd) (cmdSize ?cli) (autocompletedLen cmd)
                 = Some (map ((!) f) [cmdSize ?cli..<autocompletedLen cmd]))"
    using g c1 inner by (intro conjI)
  then have "\<exists>cmd fl. getAutocompletedCommand ?cli ''g'' = Some (cmd, fl) \<and> candidateCount cmd = 1
      \<and> (\<exists>f. firstCandidate cmd = Some f
             \<and> cmdSize ?cli \<le> autocompletedLen cmd \<and> autocompletedLen cmd \<le> length f
             \<and> candidate_chars (firstCandidate cmd) (cmdSize ?cli) (autocompletedLen cmd)
                 = Some (map ((!) f) [cmdSize ?cli..<autocompletedLen cmd]))"
    by (intro exI)
  moreover have "cmdSize ?cli \<le> length ''g''" using side by simp
  ultimately show ?thesis by (intro conjI)
qed

text \<open>
  Two ways in which \<^verbatim>\<open>cmdSize \<le> autocompletedLen\<close> fails. With a single name of 65536
  bytes there is one candidate for \<^verbatim>\<open>"a"\<close>, and \<^verbatim>\<open>autocompletedLen = 0\<close> is below
  \<^verbatim>\<open>cmdSize = 1\<close>. With the command buffer \<^verbatim>\<open>foo\<close>, NUL, \<^verbatim>\<open>bar\<close> and
  \<^verbatim>\<open>cmdSize = 7\<close> there are two candidates for \<^verbatim>\<open>"foo"\<close>, and
  \<^verbatim>\<open>autocompletedLen = 4\<close> is below \<^verbatim>\<open>cmdSize\<close>.
\<close>

theorem live_autocompletion_counterexample:
  "c_str (cmdBuffer (example_cli [example_binding long_name] ''a'')) 0 = Some ''a''
   \<and> cmdSize (example_cli [example_binding long_name] ''a'') = 1
   \<and> map_option fst (getAutocompletedCommand (example_cli [example_binding long_name] ''a'') ''a'')
      = Some \<lparr>firstCandidate = Some long_name, autocompletedLen = 0, candidateCount = 1\<rparr>
   \<and> c_str (cmdBuffer split_cli) 0 = Some ''foo''
   \<and> cmdSize split_cli = 7
   \<and> map_option fst (getAutocompletedCommand split_cli ''foo'')
      = Some \<lparr>firstCandidate = Some ''fooA'', autocompletedLen = 4, candidateCount = 2\<rparr>"
proof -
  have long: "c_str (cmdBuffer (example_cli [example_binding long_name] ''a'')) 0 = Some ''a''
   \<and> cmdSize (example_cli [example_binding long_name] ''a'') = 1
   \<and> map_option fst (getAutocompletedCommand (example_cli [example_binding long_name] ''a'') ''a'')
      = Some \<lparr>firstCandidate = Some long_name, autocompletedLen = 0, candidateCount = 1\<rparr>"
    by (simp add: getAutocompletedCommand_def bindingsCount_def example_cli_def long_body c_str_def)
  show ?thesis using long split_cli_eval split_cli_facts(1,2) by (intro conjI) simp_all
qed

section \<open>Typing displayable characters\<close>

lemma c_str_eqI:
  assumes "p + length s < length mem" "NUL \<notin> set s" "mem ! (p + length s) = NUL"
    "take (length s) (drop p mem) = s"
  shows "c_str mem p = Some s"
proof -
  have lt: "length s < length (drop p mem)" using assms(1) by simp
  have "drop p mem = take (length s) (drop p mem) @ (drop p mem ! length s) # drop (Suc (length s)) (drop p mem)"
    by (rule id_take_nth_drop [OF lt])
  also have "drop p mem ! length s = NUL" using assms(1,3) by simp
  finally have d: "drop p mem = s @ NUL # drop (Suc (length s)) (drop p mem)"
    unfolding assms(4) .
  have "NUL \<in> set (drop p mem)" by (subst d) simp
  moreover have "takeWhile (\<lambda>c. c \<noteq> NUL) (drop p mem) = s"
  proof -
    have "\<forall>x \<in> set s. x \<noteq> NUL" using assms(2) by auto
    then have "takeWhile (\<lambda>c. c \<noteq> NUL) (s @ NUL # drop (Suc (length s)) (drop p mem)) = s"
      by (simp add: takeWhile_tail takeWhile_eq_all_conv)
    then show ?thesis using d by simp
  qed
  ultimately show ?thesis by (simp add: c_str_def)
qed










section \<open>The editor does not depend on the ring buffer\<close>

lemma map_option_bind: "map_option f (Option.bind m g) = Option.bind m (\<lambda>x. map_option f (g x))"
  by (cases m) simp_all

lemma bind_map_option: "Option.bind (map_option f m) g = Option.bind m (\<lambda>x. g (f x))"
  by (cases m) simp_all

lemma map_option_if: "map_option f (if b then x else y) = (if b then map_option f x else map_option f y)"
  by simp

lemma map_option_case_option:
  "map_option f (case m of None \<Rightarrow> a | Some x \<Rightarrow> g x) = (case m of None \<Rightarrow> map_option f a | Some x \<Rightarrow> map_option f (g x))"
  by (cases m) simp_all

lemma map_option_case_prod:
  "map_option f (case p of (a, b) \<Rightarrow> g a b) = (case p of (a, b) \<Rightarrow> map_option f (g a b))"
  by (cases p) simp

lemma rxu_comm:
  "invitation_update f0 (rxu r x) = rxu r (invitation_update f0 x)"
  "history_update f1 (rxu r x) = rxu r (history_update f1 x)"
  "cmdBuffer_update f2 (rxu r x) = rxu r (cmdBuffer_update f2 x)"
  "cmdSize_update f3 (rxu r x) = rxu r (cmdSize_update f3 x)"
  "bindings_update f4 (rxu r x) = rxu r (bindings_update f4 x)"
  "bindingsFlags_update f5 (rxu r x) = rxu r (bindingsFlags_update f5 x)"
  "maxBindingsCount_update f6 (rxu r x) = rxu r (maxBindingsCount_update f6 x)"
  "inputLineLength_update f7 (rxu r x) = rxu r (inputLineLength_update f7 x)"
  "lastChar_update f8 (rxu r x) = rxu r (lastChar_update f8 x)"
  "flags_update f9 (rxu r x) = rxu r (flags_update f9 x)"
  "writeChar_update f10 (rxu r x) = rxu r (writeChar_update f10 x)"
  "writeString_update f11 (rxu r x) = rxu r (writeString_update f11 x)"
  "onCommand_update f12 (rxu r x) = rxu r (onCommand_update f12 x)"
  "postCommand_update f13 (rxu r x) = rxu r (postCommand_update f13 x)"
  "calls_update f14 (rxu r x) = rxu r (calls_update f14 x)"
  by simp_all

lemma rxu_if: "rxu r (if b then x else y) = (if b then rxu r x else rxu r y)"
  by simp

lemma bind_if: "Option.bind (if b then x else y) g = (if b then Option.bind x g else Option.bind y g)"
  by simp

lemmas rx_simps = rxu_if bind_if map_option_bind bind_map_option map_option_case_option map_option_case_prod map_option_if rxu_comm Let_def

lemma write_char_rx: "write_char (rxu r cli) c = map_option (rxu r) (write_char cli c)"
  by (simp add: write_char_def rx_simps
      split del: if_split cong: if_cong option.case_cong prod.case_cong)

lemma write_chars_rx: "write_chars (rxu r cli) cs = map_option (rxu r) (write_chars cli cs)"
  by (simp add: write_chars_def rx_simps
      split del: if_split cong: if_cong option.case_cong prod.case_cong)

lemma writeToOutput_rx: "writeToOutput (rxu r cli) s = map_option (rxu r) (writeToOutput cli s)"
  by (simp add: writeToOutput_def write_chars_rx rx_simps
      split del: if_split cong: if_cong option.case_cong prod.case_cong)

lemma clearCurrentLine_rx: "clearCurrentLine (rxu r cli) = map_option (rxu r) (clearCurrentLine cli)"
  by (simp add: clearCurrentLine_def write_chars_rx write_char_rx rx_simps
      split del: if_split cong: if_cong option.case_cong prod.case_cong)

lemma onUnknownCommand_rx: "onUnknownCommand (rxu r cli) nm = map_option (rxu r) (onUnknownCommand cli nm)"
  by (simp add: onUnknownCommand_def writeToOutput_rx rx_simps
      split del: if_split cong: if_cong option.case_cong prod.case_cong)

lemma getAutocompletedCommand_rx: "getAutocompletedCommand (rxu r cli) p = getAutocompletedCommand cli p"
  by (simp add: getAutocompletedCommand_def bindingsCount_def Let_def
      split del: if_split cong: if_cong option.case_cong prod.case_cong)

lemma printLiveAutocompletion_rx:
  "printLiveAutocompletion (rxu r cli) = map_option (rxu r) (printLiveAutocompletion cli)"
  by (simp add: printLiveAutocompletion_def getAutocompletedCommand_rx write_chars_rx write_char_rx
      writeToOutput_rx rx_simps Let_def
      split del: if_split cong: if_cong option.case_cong prod.case_cong)

lemma print_candidates_rx:
  "print_candidates bs k (rxu r cli) = map_option (rxu r) (print_candidates bs k cli)"
  by (induction bs arbitrary: k cli) (simp_all add: writeToOutput_rx rx_simps split del: if_split cong: if_cong option.case_cong prod.case_cong)

lemma onAutocompleteRequest_rx:
  "onAutocompleteRequest (rxu r cli) = map_option (rxu r) (onAutocompleteRequest cli)"
  by (simp add: onAutocompleteRequest_def getAutocompletedCommand_rx writeToOutput_rx
      clearCurrentLine_rx print_candidates_rx rx_simps split del: if_split cong: if_cong option.case_cong prod.case_cong)

lemma invoke_binding_rx:
  "invoke_binding (rxu r cli) m k b h a d = map_option (map_prod id (map_prod (rxu r) id)) (invoke_binding cli m k b h a d)"
  by (cases "tokenizeArgs b"; cases "embeddedCliTokenizeArgs m a")
     (simp_all add: invoke_binding_def Let_def)

lemma unbound_command_rx:
  "unbound_command (rxu r cli) m nm a d = map_option (map_prod id (map_prod (rxu r) id)) (unbound_command cli m nm a d)"
  by (simp add: unbound_command_def onUnknownCommand_rx rx_simps
      split del: if_split cong: if_cong option.case_cong prod.case_cong)

lemma internal_parseCommand_rx:
  "internal_parseCommand (rxu r cli) m n d = map_option (map_prod id (map_prod (rxu r) id)) (internal_parseCommand cli m n d)"
  by (simp add: internal_parseCommand_def invoke_binding_rx unbound_command_rx rx_simps
      split del: if_split cong: if_cong option.case_cong prod.case_cong)

lemma parseCommand_rx: "parseCommand (rxu r cli) = map_option (rxu r) (parseCommand cli)"
proof (cases "internal_parseCommand cli (cmdBuffer cli) (cmdSize cli) False")
  case None
  then show ?thesis by (simp add: parseCommand_def internal_parseCommand_rx)
next
  case (Some x)
  obtain ret c1 m where "x = (ret, c1, m)" by (cases x) auto
  with Some show ?thesis by (simp add: parseCommand_def internal_parseCommand_rx)
qed

lemma navigateHistory_rx: "navigateHistory (rxu r cli) up = map_option (rxu r) (navigateHistory cli up)"
  by (simp add: navigateHistory_def clearCurrentLine_rx writeToOutput_rx printLiveAutocompletion_rx rx_simps
      split del: if_split cong: if_cong option.case_cong prod.case_cong)

lemma onEscapedInput_rx: "onEscapedInput (rxu r cli) c = map_option (rxu r) (onEscapedInput cli c)"
  by (simp add: onEscapedInput_def navigateHistory_rx rx_simps
      split del: if_split cong: if_cong option.case_cong prod.case_cong)

lemma onCharInput_rx: "onCharInput (rxu r cli) c = map_option (rxu r) (onCharInput cli c)"
  by (simp add: onCharInput_def cmdMaxSize_def write_char_rx rx_simps
      split del: if_split cong: if_cong option.case_cong prod.case_cong)

lemma submitLine_rx: "submitLine (rxu r cli) = map_option (rxu r) (submitLine cli)"
  by (simp add: submitLine_def onAutocompleteRequest_rx writeToOutput_rx parseCommand_rx rx_simps
      split del: if_split cong: if_cong option.case_cong prod.case_cong)

lemma onControlInput_rx: "onControlInput (rxu r cli) c = map_option (rxu r) (onControlInput cli c)"
  by (simp add: onControlInput_def submitLine_rx onAutocompleteRequest_rx write_char_rx rx_simps
      split del: if_split cong: if_cong option.case_cong prod.case_cong)

lemma processByte_rx: "processByte (rxu r cli) c = map_option (rxu r) (processByte cli c)"
  by (simp add: processByte_def onControlInput_rx onCharInput_rx onEscapedInput_rx printLiveAutocompletion_rx rx_simps
      split del: if_split cong: if_cong option.case_cong prod.case_cong)

lemma processBytes_rx: "processBytes (rxu r cli) cs = map_option (rxu r) (processBytes cli cs)"
proof (induction cs arbitrary: cli)
  case Nil
  then show ?case by simp
next
  case (Cons c cs)
  show ?case
    by (cases "processByte cli c") (simp_all add: processByte_rx Cons.IH)
qed

section \<open>Ring buffer: ingest and drain\<close>

lemma mod_add_cancel_lt:
  assumes "(a + x) mod n = (a + y) mod n" "x < n" "y < n"
  shows "x = (y::nat)"
proof -
  have aux: "u = v" if "(a + u) mod n = (a + v) mod n" "u \<le> v" "v < n" for u v
  proof -
    have "a + u \<le> a + v" using that(2) by simp
    then have "n dvd (a + v) - (a + u)"
      using that(1) mod_eq_dvd_iff_nat [of "a + u" "a + v" n] by simp
    then have "n dvd v - u" by simp
    moreover have "v - u < n" using that(3) by simp
    ultimately have "v - u = 0" using nat_dvd_not_less [of "v - u" n] by force
    then show ?thesis using that(2) by simp
  qed
  show ?thesis
  proof (cases "x \<le> y")
    case True
    then show ?thesis using aux [of x y] assms by simp
  next
    case False
    then show ?thesis using aux [of y x] assms by simp
  qed
qed
lemma mod_wrap_diff: "f \<le> b \<Longrightarrow> b < n \<Longrightarrow> (b + n - f) mod n = b - (f::nat)"
  by (metis Nat.add_diff_assoc2 less_imp_diff_less mod_add_self2 mod_less)

lemma fifo_available:
  assumes "fifo_wf b"
  shows "fifoBufAvailable b = fifo_count b"
proof (cases "ffront b \<le> fback b")
  case True
  then have "fifo_count b = fback b - ffront b"
    using assms mod_wrap_diff [of "ffront b" "fback b" "fifo_size b"] by (simp add: fifo_count_def fifo_wf_def)
  moreover have "fback b - ffront b < 65536" using assms by (auto simp: fifo_wf_def)
  ultimately show ?thesis using True by (simp add: fifoBufAvailable_def u16_def)
next
  case False
  then have lt: "fback b + fifo_size b - ffront b < fifo_size b" using assms by (auto simp: fifo_wf_def)
  have "int (fifo_size b) - int (ffront b) + int (fback b) = int (fback b + fifo_size b - ffront b)"
    using assms by (auto simp: fifo_wf_def)
  moreover have "fback b + fifo_size b - ffront b < 65536" using lt assms by (auto simp: fifo_wf_def)
  ultimately show ?thesis using False lt
    by (simp add: fifoBufAvailable_def fifo_count_def nat_mod_distrib)
qed

lemma fifo_count_lt: "fifo_wf b \<Longrightarrow> fifo_count b < fifo_size b"
  by (simp add: fifo_count_def fifo_wf_def)

lemma fifo_count_0: "fifo_wf b \<Longrightarrow> fifo_count b = 0 \<longleftrightarrow> ffront b = fback b"
proof -
  assume wf: "fifo_wf b"
  let ?N = "fifo_size b"
  show ?thesis
  proof (cases "ffront b \<le> fback b")
    case True
    then have "fifo_count b = fback b - ffront b"
      using wf mod_wrap_diff [of "ffront b" "fback b" ?N] by (simp add: fifo_count_def fifo_wf_def)
    then show ?thesis using True by auto
  next
    case False
    then have "fback b + ?N - ffront b < ?N" "0 < fback b + ?N - ffront b"
      using wf by (auto simp: fifo_wf_def)
    then show ?thesis using False by (simp add: fifo_count_def)
  qed
qed

lemma fifo_back_index: "fifo_wf b \<Longrightarrow> (ffront b + fifo_count b) mod fifo_size b = fback b"
proof -
  assume wf: "fifo_wf b"
  let ?N = "fifo_size b"
  have "(ffront b + (fback b + ?N - ffront b) mod ?N) mod ?N = (ffront b + (fback b + ?N - ffront b)) mod ?N"
    by (simp add: mod_add_right_eq)
  also have "ffront b + (fback b + ?N - ffront b) = fback b + ?N" using wf by (simp add: fifo_wf_def)
  also have "(fback b + ?N) mod ?N = fback b" using wf by (simp add: fifo_wf_def)
  finally show ?thesis by (simp add: fifo_count_def)
qed

lemma fifoBufPush_ok:
  assumes wf: "fifo_wf b" and room: "fifo_count b + 1 < fifo_size b"
  shows "\<exists>b'. fifoBufPush b a = Some (True, b') \<and> fifo_wf b' \<and> fifo_size b' = fifo_size b
           \<and> fifo_count b' = fifo_count b + 1 \<and> fifo_content b' = fifo_content b @ [a]
           \<and> ffront b' = ffront b"
proof -
  let ?N = "fifo_size b"
  let ?nb = "(fback b + 1) mod ?N"
  let ?b' = "b\<lparr>fbuf := (fbuf b)[fback b := a], fback := ?nb\<rparr>"
  have N: "0 < ?N" "fback b < ?N" "ffront b < ?N" "?N < 65536" using wf by (auto simp: fifo_wf_def)
  have u: "u16 (fback b + 1) = fback b + 1" using N by (simp add: u16_def)
  have cnt': "(ffront b + (fifo_count b + 1)) mod ?N = ?nb"
    using fifo_back_index [OF wf] by (metis add.assoc mod_add_left_eq)
  have ne: "?nb \<noteq> ffront b"
  proof
    assume "?nb = ffront b"
    then have "(ffront b + (fifo_count b + 1)) mod ?N = (ffront b + 0) mod ?N"
      using cnt' N by simp
    from mod_add_cancel_lt [OF this room N(1)] show False by simp
  qed
  have push: "fifoBufPush b a = Some (True, ?b')"
    using N u ne by (simp add: fifoBufPush_def wr_def fifo_size_def)
  have wf': "fifo_wf ?b'" using N by (simp add: fifo_wf_def fifo_size_def)
  have size': "fifo_size ?b' = ?N" by (simp add: fifo_size_def)
  have count': "fifo_count ?b' = fifo_count b + 1"
  proof -
    have "(ffront ?b' + fifo_count ?b') mod ?N = (ffront b + (fifo_count b + 1)) mod ?N"
      using fifo_back_index [OF wf'] cnt' size' by simp
    then have "(ffront b + fifo_count ?b') mod ?N = (ffront b + (fifo_count b + 1)) mod ?N" by simp
    from mod_add_cancel_lt [OF this _ room] show ?thesis using fifo_count_lt [OF wf'] size' by simp
  qed
  have content': "fifo_content ?b' = fifo_content b @ [a]"
  proof -
    have old: "fbuf ?b' ! ((ffront b + k) mod ?N) = fbuf b ! ((ffront b + k) mod ?N)" if "k < fifo_count b" for k
    proof -
      have "(ffront b + k) mod ?N \<noteq> fback b"
      proof
        assume "(ffront b + k) mod ?N = fback b"
        then have "(ffront b + k) mod ?N = (ffront b + fifo_count b) mod ?N"
          using fifo_back_index [OF wf] by simp
        from mod_add_cancel_lt [OF this _ fifo_count_lt [OF wf]] show False
          using that fifo_count_lt [OF wf] by simp
      qed
      then show ?thesis by simp
    qed
    have new: "fbuf ?b' ! ((ffront b + fifo_count b) mod ?N) = a"
      using fifo_back_index [OF wf] N by (simp add: fifo_size_def)
    show ?thesis
      unfolding fifo_content_def count' size' using old new by (simp add: fifo_size_def)
  qed
  show ?thesis using push wf' size' count' content' by auto
qed

lemma fifoBufPop_ok:
  assumes wf: "fifo_wf b" and ne: "fifo_content b = c # cs"
  shows "\<exists>b'. fifoBufPop b = Some (c, b') \<and> fifo_wf b' \<and> fifo_content b' = cs
           \<and> b'\<lparr>ffront := fback b'\<rparr> = b\<lparr>ffront := fback b\<rparr>"
proof -
  let ?N = "fifo_size b"
  let ?nf = "(ffront b + 1) mod ?N"
  let ?b' = "b\<lparr>ffront := ?nf\<rparr>"
  have N: "0 < ?N" "fback b < ?N" "ffront b < ?N" "?N < 65536" using wf by (auto simp: fifo_wf_def)
  have cnt: "fifo_count b = Suc (length cs)"
    using ne by (simp add: fifo_content_def) (metis length_Cons length_map length_upt diff_zero)
  have ne_idx: "ffront b \<noteq> fback b" using fifo_count_0 [OF wf] cnt by simp
  have u: "u16 (ffront b + 1) = ffront b + 1" using N by (simp add: u16_def)
  have hd: "fbuf b ! ffront b = c"
  proof -
    have "fifo_content b ! 0 = fbuf b ! ((ffront b + 0) mod ?N)"
      unfolding fifo_content_def using cnt by (simp del: upt_Suc)
    then show ?thesis using ne N by simp
  qed
  have pop: "fifoBufPop b = Some (c, ?b')"
    using ne_idx N u hd by (simp add: fifoBufPop_def rd_def fifo_size_def)
  have wf': "fifo_wf ?b'" using N by (simp add: fifo_wf_def fifo_size_def)
  have size': "fifo_size ?b' = ?N" by (simp add: fifo_size_def)
  have count': "fifo_count ?b' = length cs"
  proof -
    have "(ffront ?b' + fifo_count ?b') mod ?N = fback b"
      using fifo_back_index [OF wf'] size' by simp
    then have "(?nf + fifo_count ?b') mod ?N = (ffront b + fifo_count b) mod ?N"
      using fifo_back_index [OF wf] by simp
    moreover have "(?nf + fifo_count ?b') mod ?N = (ffront b + 1 + fifo_count ?b') mod ?N"
      by (rule mod_add_left_eq)
    ultimately have "(ffront b + (1 + fifo_count ?b')) mod ?N = (ffront b + fifo_count b) mod ?N"
      by (simp add: add.assoc)
    moreover have "1 + fifo_count ?b' < ?N \<or> 1 + fifo_count ?b' = ?N"
      using fifo_count_lt [OF wf'] size' by linarith
    moreover have "1 + fifo_count ?b' \<noteq> ?N"
    proof
      assume e: "1 + fifo_count ?b' = ?N"
      then have "(ffront b + (1 + fifo_count ?b')) mod ?N = (ffront b + 0) mod ?N" by simp
      then have "(ffront b + fifo_count b) mod ?N = (ffront b + 0) mod ?N"
        using calculation(1) by simp
      from mod_add_cancel_lt [OF this fifo_count_lt [OF wf] N(1)] cnt show False by simp
    qed
    ultimately have "1 + fifo_count ?b' = fifo_count b"
      using mod_add_cancel_lt [of "ffront b" "1 + fifo_count ?b'" ?N "fifo_count b"] fifo_count_lt [OF wf]
      by blast
    then show ?thesis using cnt by simp
  qed
  have content': "fifo_content ?b' = cs"
  proof (rule nth_equalityI)
    show "length (fifo_content ?b') = length cs" using count' by (simp add: fifo_content_def)
    fix k assume "k < length (fifo_content ?b')"
    then have k: "k < length cs" using count' by (simp add: fifo_content_def)
    have "fifo_content ?b' ! k = fbuf b ! ((?nf + k) mod ?N)"
      using k count' by (simp add: fifo_content_def fifo_size_def del: upt_Suc)
    also have "(?nf + k) mod ?N = (ffront b + Suc k) mod ?N"
      using mod_add_left_eq [of "ffront b + 1" ?N k] by (simp add: add.assoc)
    also have "fbuf b ! ((ffront b + Suc k) mod ?N) = fifo_content b ! Suc k"
      using k cnt by (simp add: fifo_content_def del: upt_Suc)
    also have "\<dots> = cs ! k" using ne by simp
    finally show "fifo_content ?b' ! k = cs ! k" .
  qed
  show ?thesis using pop wf' content' by auto
qed

lemma fifo_content_Nil: "fifo_wf b \<Longrightarrow> fifo_content b = [] \<longleftrightarrow> fifoBufAvailable b = 0"
  by (simp add: fifo_available fifo_content_def)

lemma fifo_content_length: "fifo_wf b \<Longrightarrow> length (fifo_content b) = fifoBufAvailable b"
  by (simp add: fifo_available fifo_content_def)

lemma fifo_drained: "fifo_wf b \<Longrightarrow> fifo_content b = [] \<Longrightarrow> b\<lparr>ffront := fback b\<rparr> = b"
  using fifo_count_0 [of b] by (simp add: fifo_content_def)

lemma receiveChars_ok:
  assumes "fifo_wf (rxBuffer cli)" "length (fifo_content (rxBuffer cli)) + length bs < fifo_size (rxBuffer cli)"
  shows "\<exists>rx. receiveChars cli bs = Some (cli\<lparr>rxBuffer := rx\<rparr>) \<and> fifo_wf rx
           \<and> fifo_content rx = fifo_content (rxBuffer cli) @ bs"
  using assms
proof (induction bs arbitrary: cli)
  case Nil
  have "cli = cli\<lparr>rxBuffer := rxBuffer cli\<rparr>" by simp
  then show ?case using Nil by (metis append_Nil2 receiveChars.simps(1))
next
  case (Cons c cs)
  let ?b = "rxBuffer cli"
  have room: "fifo_count ?b + 1 < fifo_size ?b"
    using Cons.prems by (simp add: fifo_content_def)
  from fifoBufPush_ok [OF Cons.prems(1) room, of c]
  obtain b' where p: "fifoBufPush ?b c = Some (True, b')" "fifo_wf b'" "fifo_size b' = fifo_size ?b"
    "fifo_content b' = fifo_content ?b @ [c]" by blast
  have r1: "embeddedCliReceiveChar cli c = Some (cli\<lparr>rxBuffer := b'\<rparr>)"
    using p(1) by (simp add: embeddedCliReceiveChar_def)
  from Cons.IH [of "cli\<lparr>rxBuffer := b'\<rparr>"] p Cons.prems(2)
  obtain rx where "receiveChars (cli\<lparr>rxBuffer := b'\<rparr>) cs = Some (cli\<lparr>rxBuffer := b', rxBuffer := rx\<rparr>)"
    "fifo_wf rx" "fifo_content rx = (fifo_content ?b @ [c]) @ cs" by auto
  then show ?case using r1 by (intro exI [of _ rx]) simp
qed

lemma process_loop_drains:
  assumes "fifo_wf (rxBuffer cli)" "fifo_content (rxBuffer cli) = bs"
  shows "embeddedCliProcess_loop cli
       = map_option (rxu ((rxBuffer cli)\<lparr>ffront := fback (rxBuffer cli)\<rparr>)) (processBytes cli bs)"
  using assms
proof (induction bs arbitrary: cli)
  case Nil
  then have "fifoBufAvailable (rxBuffer cli) = 0" by (simp add: fifo_content_Nil)
  moreover have "rxu ((rxBuffer cli)\<lparr>ffront := fback (rxBuffer cli)\<rparr>) cli = cli"
    using fifo_drained [OF Nil.prems] by simp
  ultimately show ?case by (subst embeddedCliProcess_loop.simps) simp
next
  case (Cons c cs)
  let ?b = "rxBuffer cli"
  have av: "fifoBufAvailable ?b \<noteq> 0"
    using fifo_content_Nil [OF Cons.prems(1)] Cons.prems(2) by simp
  from fifoBufPop_ok [OF Cons.prems]
  obtain b' where p: "fifoBufPop ?b = Some (c, b')" "fifo_wf b'" "fifo_content b' = cs"
    "b'\<lparr>ffront := fback b'\<rparr> = ?b\<lparr>ffront := fback ?b\<rparr>" by blast
  show ?case
  proof (cases "processByte cli c")
    case None
    then show ?thesis using av p(1)
      by (subst embeddedCliProcess_loop.simps) (simp add: processByte_rx)
  next
    case (Some c1)
    have step: "processByte (rxu b' cli) c = Some (rxu b' c1)"
      using Some by (simp add: processByte_rx)
    have "embeddedCliProcess_loop (rxu b' c1)
        = map_option (rxu ((rxBuffer (rxu b' c1))\<lparr>ffront := fback (rxBuffer (rxu b' c1))\<rparr>))
            (processBytes (rxu b' c1) cs)"
      by (rule Cons.IH) (use p in simp_all)
    also have "\<dots> = map_option (rxu (?b\<lparr>ffront := fback ?b\<rparr>)) (processBytes c1 cs)"
      using p(4) by (simp add: processBytes_rx option.map_comp comp_def)
    finally show ?thesis
      using av p(1) step Some by (subst embeddedCliProcess_loop.simps) simp
  qed
qed

subsection \<open>The editor leaves the overflow flag alone\<close>

lemma or_and1: "x AND 1 = 0 \<Longrightarrow> (w OR x) AND 1 = w AND (1::8 word)"
  by (simp add: bit.conj_disj_distrib2)

lemma overflowed_alt: "overflowed c \<longleftrightarrow> flags c AND 1 \<noteq> 0"
  by (simp add: overflowed_def IS_FLAG_SET_def CLI_FLAG_OVERFLOW_def)

lemma flag_bit0:
  "SET_FLAG w CLI_FLAG_DIRECT_PRINT AND 1 = w AND 1"
  "UNSET_U8FLAG w CLI_FLAG_DIRECT_PRINT AND 1 = w AND 1"
  "SET_FLAG w CLI_FLAG_ESCAPE_MODE AND 1 = w AND 1"
  "UNSET_U8FLAG w CLI_FLAG_ESCAPE_MODE AND 1 = w AND 1"
  "SET_FLAG w CLI_FLAG_INIT_COMPLETE AND 1 = w AND 1"
  by (simp_all add: SET_FLAG_def UNSET_U8FLAG_def
      CLI_FLAG_DIRECT_PRINT_def CLI_FLAG_ESCAPE_MODE_def CLI_FLAG_INIT_COMPLETE_def
      or_and1 and.assoc)

lemma overflowed_upd [simp]:
  "overflowed (invitation_update f0 c) = overflowed c"
  "overflowed (history_update f1 c) = overflowed c"
  "overflowed (rxBuffer_update fr c) = overflowed c"
  "overflowed (cmdBuffer_update f2 c) = overflowed c"
  "overflowed (cmdSize_update f3 c) = overflowed c"
  "overflowed (bindings_update f4 c) = overflowed c"
  "overflowed (bindingsFlags_update f5 c) = overflowed c"
  "overflowed (inputLineLength_update f7 c) = overflowed c"
  "overflowed (lastChar_update f8 c) = overflowed c"
  "overflowed (calls_update f14 c) = overflowed c"
  by (simp_all add: overflowed_def)

lemma write_char_ovf: "write_char c x = Some c' \<Longrightarrow> overflowed c' = overflowed c"
  by (auto simp: write_char_def split: if_splits)

lemma write_chars_ovf: "write_chars c x = Some c' \<Longrightarrow> overflowed c' = overflowed c"
  by (auto simp: write_chars_def split: if_splits)

lemma writeToOutput_ovf: "writeToOutput c x = Some c' \<Longrightarrow> overflowed c' = overflowed c"
  by (auto simp: writeToOutput_def split: if_splits dest: write_chars_ovf)

lemma clearCurrentLine_ovf: "clearCurrentLine c = Some c' \<Longrightarrow> overflowed c' = overflowed c"
  by (auto simp: clearCurrentLine_def split: bind_splits dest!: write_chars_ovf write_char_ovf)

lemma onUnknownCommand_ovf: "onUnknownCommand c nm = Some c' \<Longrightarrow> overflowed c' = overflowed c"
  by (auto simp: onUnknownCommand_def split: bind_splits dest!: writeToOutput_ovf)

lemma printLiveAutocompletion_ovf: "printLiveAutocompletion c = Some c' \<Longrightarrow> overflowed c' = overflowed c"
  by (auto simp: printLiveAutocompletion_def Let_def split: bind_splits if_splits prod.splits
      dest!: writeToOutput_ovf write_chars_ovf write_char_ovf)

lemma print_candidates_ovf: "print_candidates bs k c = Some c' \<Longrightarrow> overflowed c' = overflowed c"
proof (induction bs arbitrary: k c)
  case Nil
  then show ?case by simp
next
  case (Cons b bs)
  from Cons.prems obtain c1 where
    c1: "overflowed c1 = overflowed c" and r: "print_candidates bs (k + 1) c1 = Some c'"
    by (auto split: bind_splits if_splits dest!: writeToOutput_ovf)
  from Cons.IH [OF r] c1 show ?case by simp
qed

lemma onAutocompleteRequest_ovf: "onAutocompleteRequest c = Some c' \<Longrightarrow> overflowed c' = overflowed c"
  by (auto simp: onAutocompleteRequest_def Let_def split: bind_splits if_splits prod.splits
      dest!: writeToOutput_ovf clearCurrentLine_ovf print_candidates_ovf)

lemma invoke_binding_ovf:
  "invoke_binding c m k b h a d = Some (r, c', m') \<Longrightarrow> overflowed c' = overflowed c"
  by (auto simp: invoke_binding_def Let_def overflowed_alt flag_bit0 split: bind_splits if_splits)

lemma unbound_command_ovf:
  "unbound_command c m nm a d = Some (r, c', m') \<Longrightarrow> overflowed c' = overflowed c"
  by (auto simp: unbound_command_def Let_def overflowed_alt flag_bit0 split: bind_splits if_splits
      dest!: onUnknownCommand_ovf [unfolded overflowed_alt])

lemma internal_parseCommand_ovf:
  "internal_parseCommand c m n d = Some (r, c', m') \<Longrightarrow> overflowed c' = overflowed c"
  by (auto simp: internal_parseCommand_def split: bind_splits if_splits option.splits prod.splits
      dest!: invoke_binding_ovf unbound_command_ovf)

lemma parseCommand_ovf: "parseCommand c = Some c' \<Longrightarrow> overflowed c' = overflowed c"
  by (auto simp: parseCommand_def split: bind_splits prod.splits dest!: internal_parseCommand_ovf)

lemma navigateHistory_ovf: "navigateHistory c up = Some c' \<Longrightarrow> overflowed c' = overflowed c"
  by (auto simp: navigateHistory_def Let_def split: bind_splits if_splits
      dest!: writeToOutput_ovf clearCurrentLine_ovf printLiveAutocompletion_ovf)

lemma onEscapedInput_ovf: "onEscapedInput c x = Some c' \<Longrightarrow> overflowed c' = overflowed c"
  by (auto simp: onEscapedInput_def Let_def overflowed_alt flag_bit0 split: if_splits dest!: navigateHistory_ovf [unfolded overflowed_alt])

lemma onCharInput_ovf: "onCharInput c x = Some c' \<Longrightarrow> overflowed c' = overflowed c"
  by (auto simp: onCharInput_def split: bind_splits if_splits dest!: write_char_ovf)

lemma submitLine_ovf: "submitLine c = Some c' \<Longrightarrow> overflowed c' = overflowed c"
  by (auto simp: submitLine_def split: bind_splits if_splits
      dest!: writeToOutput_ovf onAutocompleteRequest_ovf parseCommand_ovf)

lemma onControlInput_ovf: "onControlInput c x = Some c' \<Longrightarrow> overflowed c' = overflowed c"
  by (auto simp: onControlInput_def split: bind_splits if_splits
      dest!: submitLine_ovf onAutocompleteRequest_ovf write_char_ovf)

lemma processByte_ovf: "processByte c x = Some c' \<Longrightarrow> overflowed c' = overflowed c"
  by (auto simp: processByte_def overflowed_alt flag_bit0 split: bind_splits if_splits
      dest!: onControlInput_ovf [unfolded overflowed_alt] onCharInput_ovf [unfolded overflowed_alt]
        onEscapedInput_ovf [unfolded overflowed_alt] printLiveAutocompletion_ovf [unfolded overflowed_alt])

lemma processBytes_ovf: "processBytes c xs = Some c' \<Longrightarrow> overflowed c' = overflowed c"
proof (induction xs arbitrary: c)
  case Nil
  then show ?case by simp
next
  case (Cons x xs)
  from Cons.prems obtain c1 where s: "processByte c x = Some c1" and r: "processBytes c1 xs = Some c'"
    by (auto split: option.splits)
  from Cons.IH [OF r] processByte_ovf [OF s] show ?case by simp
qed

subsection \<open>Delivery\<close>

text \<open>
  C1 (as amended). Take an engine whose \<^verbatim>\<open>writeChar\<close> hook is set, whose overflow flag
  is clear and whose ring buffer, of size \<open>N\<close>, is empty. Every byte sequence of length
  less than \<open>N\<close> is taken by \<^verbatim>\<open>embeddedCliReceiveChar\<close> without setting the overflow
  flag, and all its bytes are then available. One call of \<^verbatim>\<open>embeddedCliProcess\<close> then
  does exactly this: it prints the invitation if this is the first call, feeds the bytes
  to the editor in the order received, and leaves the ring buffer empty; it discards
  nothing, since the editor never sets the overflow flag.
\<close>

theorem fifo_delivers_every_byte:
  assumes "ffront (rxBuffer cli) = fback (rxBuffer cli)"
    and "fback (rxBuffer cli) < fifo_size (rxBuffer cli)"
    and "fifo_size (rxBuffer cli) < 65536"
    and "length bs < fifo_size (rxBuffer cli)"
    and "\<not> IS_FLAG_SET (flags cli) CLI_FLAG_OVERFLOW"
    and "writeChar cli"
  shows "\<exists>rx. receiveChars cli bs = Some (cli\<lparr>rxBuffer := rx\<rparr>)
       \<and> \<not> IS_FLAG_SET (flags (cli\<lparr>rxBuffer := rx\<rparr>)) CLI_FLAG_OVERFLOW
       \<and> fifoBufAvailable rx = length bs
       \<and> embeddedCliProcess (cli\<lparr>rxBuffer := rx\<rparr>)
           = map_option (rxBuffer_update (\<lambda>_. rx\<lparr>ffront := fback rx\<rparr>))
               (Option.bind
                  (if IS_FLAG_SET (flags cli) CLI_FLAG_INIT_COMPLETE then Some cli
                   else writeToOutput (cli\<lparr>flags := SET_FLAG (flags cli) CLI_FLAG_INIT_COMPLETE\<rparr>)
                          (invitation cli))
                  (\<lambda>c. processBytes c bs))"
proof -
  have wf: "fifo_wf (rxBuffer cli)" using assms(1,2,3) by (simp add: fifo_wf_def)
  have e: "fifo_content (rxBuffer cli) = []"
    using fifo_count_0 [OF wf] assms(1) by (simp add: fifo_content_def)
  from receiveChars_ok [OF wf, of bs] e assms(4)
  obtain rx where rx: "receiveChars cli bs = Some (cli\<lparr>rxBuffer := rx\<rparr>)" "fifo_wf rx"
    "fifo_content rx = bs" by auto
  have av: "fifoBufAvailable rx = length bs"
    using fifo_content_length [OF rx(2)] rx(3) by simp
  let ?rx' = "rx\<lparr>ffront := fback rx\<rparr>"
  let ?init = "if IS_FLAG_SET (flags cli) CLI_FLAG_INIT_COMPLETE then Some cli
     else writeToOutput (cli\<lparr>flags := SET_FLAG (flags cli) CLI_FLAG_INIT_COMPLETE\<rparr>) (invitation cli)"
  have no: "\<not> overflowed cli" using assms(5) by (simp add: overflowed_def)
  have start: "embeddedCliProcess (rxu rx cli) =
      Option.bind (map_option (rxu rx) ?init)
        (\<lambda>c1. Option.bind (embeddedCliProcess_loop c1)
           (\<lambda>c2. if IS_FLAG_SET (flags c2) CLI_FLAG_OVERFLOW
                 then Option.bind (wr (cmdBuffer c2) 0 NUL)
                        (\<lambda>m. Some (c2\<lparr>cmdSize := 0, cmdBuffer := m,
                                     flags := UNSET_U8FLAG (flags c2) CLI_FLAG_OVERFLOW\<rparr>))
                 else Some c2))"
    using assms(6) by (simp add: embeddedCliProcess_def writeToOutput_rx rxu_comm)
  have "embeddedCliProcess (rxu rx cli) = map_option (rxu ?rx') (Option.bind ?init (\<lambda>c. processBytes c bs))"
  proof (cases ?init)
    case None
    then show ?thesis unfolding start by simp
  next
    case (Some c1)
    have no1: "\<not> overflowed c1"
    proof (cases "IS_FLAG_SET (flags cli) CLI_FLAG_INIT_COMPLETE")
      case True
      then show ?thesis using Some no by simp
    next
      case False
      then have "writeToOutput (cli\<lparr>flags := SET_FLAG (flags cli) CLI_FLAG_INIT_COMPLETE\<rparr>) (invitation cli) = Some c1"
        using Some by simp
      from writeToOutput_ovf [OF this] no show ?thesis by (simp add: overflowed_alt flag_bit0)
    qed
    have loop: "embeddedCliProcess_loop (rxu rx c1) = map_option (rxu ?rx') (processBytes c1 bs)"
      using process_loop_drains [of "rxu rx c1" bs] rx(2,3)
      by (simp add: processBytes_rx option.map_comp comp_def)
    show ?thesis
    proof (cases "processBytes c1 bs")
      case None
      then show ?thesis unfolding start Some using loop by simp
    next
      case c2: (Some c2)
      have "\<not> overflowed c2" using processBytes_ovf [OF c2] no1 by simp
      then have "\<not> IS_FLAG_SET (flags (rxu ?rx' c2)) CLI_FLAG_OVERFLOW" by (simp add: overflowed_def)
      then show ?thesis unfolding start Some using loop c2 by simp
    qed
  qed
  then show ?thesis using rx(1) av assms(5) by (intro exI [of _ rx]) simp
qed

theorem fifo_delivers_every_byte_witness:
  "length ''ab'' < fifo_size (rxBuffer (example_cli [] []))
   \<and> writeChar (example_cli [] [])
   \<and> (\<exists>rx. receiveChars (example_cli [] []) ''ab'' = Some ((example_cli [] [])\<lparr>rxBuffer := rx\<rparr>)
       \<and> \<not> IS_FLAG_SET (flags ((example_cli [] [])\<lparr>rxBuffer := rx\<rparr>)) CLI_FLAG_OVERFLOW
       \<and> fifoBufAvailable rx = length ''ab''
       \<and> embeddedCliProcess ((example_cli [] [])\<lparr>rxBuffer := rx\<rparr>)
           = map_option (rxBuffer_update (\<lambda>_. rx\<lparr>ffront := fback rx\<rparr>))
               (Option.bind
                  (if IS_FLAG_SET (flags (example_cli [] [])) CLI_FLAG_INIT_COMPLETE
                   then Some (example_cli [] [])
                   else writeToOutput
                          ((example_cli [] [])\<lparr>flags := SET_FLAG (flags (example_cli [] [])) CLI_FLAG_INIT_COMPLETE\<rparr>)
                          (invitation (example_cli [] [])))
                  (\<lambda>c. processBytes c ''ab'')))"
proof -
  have h: "ffront (rxBuffer (example_cli [] [])) = fback (rxBuffer (example_cli [] []))"
    "fback (rxBuffer (example_cli [] [])) < fifo_size (rxBuffer (example_cli [] []))"
    "fifo_size (rxBuffer (example_cli [] [])) < 65536"
    "length ''ab'' < fifo_size (rxBuffer (example_cli [] []))"
    "\<not> IS_FLAG_SET (flags (example_cli [] [])) CLI_FLAG_OVERFLOW"
    "writeChar (example_cli [] [])"
    by (simp_all add: example_cli_def fifo_size_def IS_FLAG_SET_def CLI_FLAG_OVERFLOW_def
        CLI_FLAG_INIT_COMPLETE_def CLI_FLAG_AUTOCOMPLETE_ENABLED_def)
  show ?thesis
    by (intro conjI h(4) h(6) fifo_delivers_every_byte [OF h])
qed

text \<open>
  A sequence as long as the ring buffer does not fit: of eight bytes delivered to a ring
  buffer of size eight, the last one is dropped and the overflow flag is set. And without
  a \<^verbatim>\<open>writeChar\<close> hook the process call returns at once: the two bytes received
  before it are still in the ring buffer after it.
\<close>

theorem fifo_full_counterexample:
  "length ''abcdefgh'' \<le> fifo_size (rxBuffer (example_cli [] []))
   \<and> map_option (\<lambda>c. (IS_FLAG_SET (flags c) CLI_FLAG_OVERFLOW, fifoBufAvailable (rxBuffer c),
                        fifo_content (rxBuffer c)))
        (receiveChars (example_cli [] []) ''abcdefgh'')
      = Some (True, 7, ''abcdefg'')
   \<and> map_option (\<lambda>c. (fifoBufAvailable (rxBuffer c), fifo_content (rxBuffer c), calls c))
        (Option.bind (receiveChars ((example_cli [] [])\<lparr>writeChar := False\<rparr>) ''ab'') embeddedCliProcess)
      = Some (2, ''ab'', [])"
  by (simp add: example_cli_def fifo_size_def embeddedCliReceiveChar_def fifoBufPush_def wr_def u16_def
      IS_FLAG_SET_def SET_FLAG_def CLI_FLAG_OVERFLOW_def CLI_FLAG_INIT_COMPLETE_def
      CLI_FLAG_AUTOCOMPLETE_ENABLED_def fifoBufAvailable_def fifo_content_def fifo_count_def upt_rec
      embeddedCliProcess_def)

section \<open>Direct mode\<close>

lemma isEmpty_loop_spec:
  assumes "command_size \<le> length cb"
  shows "isEmpty_loop cb command_size k = Some (\<forall>j. k \<le> j \<and> j < command_size \<longrightarrow> cb ! j = SP)"
  using assms
proof (induction cb command_size k rule: isEmpty_loop.induct)
  case (1 cb command_size k)
  show ?case
  proof (cases "k < command_size")
    case False
    then show ?thesis by (subst isEmpty_loop.simps) auto
  next
    case True
    then have r: "rd cb k = Some (cb ! k)" using "1.prems" by (simp add: rd_def)
    show ?thesis
    proof (cases "cb ! k = SP")
      case False
      then show ?thesis using True r by (subst isEmpty_loop.simps) auto
    next
      case sp: True
      have "(\<forall>j. k \<le> j \<and> j < command_size \<longrightarrow> cb ! j = SP)
          = (\<forall>j. k + 1 \<le> j \<and> j < command_size \<longrightarrow> cb ! j = SP)"
      proof (intro iffI allI impI)
        fix j assume a: "\<forall>j. k \<le> j \<and> j < command_size \<longrightarrow> cb ! j = SP" and "k + 1 \<le> j \<and> j < command_size"
        then show "cb ! j = SP" by simp
      next
        fix j assume a: "\<forall>j. k + 1 \<le> j \<and> j < command_size \<longrightarrow> cb ! j = SP" and b: "k \<le> j \<and> j < command_size"
        show "cb ! j = SP"
        proof (cases "j = k")
          case True then show ?thesis using sp by simp
        next
          case False then show ?thesis using a b by simp
        qed
      qed
      then show ?thesis
        using True r sp "1.IH" [OF True r _ "1.prems"] by (subst isEmpty_loop.simps) simp
    qed
  qed
qed

lemma frame_mono:
  assumes "\<forall>j. m ! j = cb ! j \<or> (k + 1 \<le> j \<and> j < n \<and> cb ! j = SP \<and> m ! j = NUL)"
  shows "\<forall>j. m ! j = cb ! j \<or> (k \<le> j \<and> j < n \<and> cb ! j = SP \<and> m ! j = (NUL::char))"
proof
  fix j
  from assms have "m ! j = cb ! j \<or> (k + 1 \<le> j \<and> j < n \<and> cb ! j = SP \<and> m ! j = NUL)"
    by (rule spec)
  then show "m ! j = cb ! j \<or> (k \<le> j \<and> j < n \<and> cb ! j = SP \<and> m ! j = NUL)"
    by auto
qed

text \<open>
  The second loop of \<^verbatim>\<open>_parseCommand\<close> returns; it changes nothing but spaces of
  the command into NUL, and keeps a command name once it is found.
\<close>

lemma split_loop_frame_aux:
  assumes "st = (cb, cmdName, cmdArgs, nameFinished)" "command_size \<le> length cb"
    and "\<forall>a. cmdArgs = Some a \<longrightarrow> a < command_size" "\<forall>n. cmdName = Some n \<longrightarrow> n < command_size"
  shows "\<exists>m cn ca nf. split_loop command_size k st = Some (m, cn, ca, nf)
       \<and> length m = length cb
       \<and> (\<forall>j. m ! j = cb ! j \<or> (k \<le> j \<and> j < command_size \<and> cb ! j = SP \<and> m ! j = NUL))
       \<and> (cmdName \<noteq> None \<longrightarrow> cn = cmdName)
       \<and> (\<forall>a. ca = Some a \<longrightarrow> a < command_size)
       \<and> (\<forall>n. cn = Some n \<longrightarrow> n < command_size)"
  using assms
proof (induction command_size k st
    arbitrary: cb cmdName cmdArgs nameFinished rule: split_loop.induct)
  case (1 command_size k cb' cmdName' cmdArgs' nameFinished')
  then have eqs: "cb' = cb" "cmdName' = cmdName" "cmdArgs' = cmdArgs" "nameFinished' = nameFinished"
    by simp_all
  note IH = "1.IH" [unfolded eqs]
  note prems = "1.prems"(2-)
  let ?goal = "\<exists>m cn ca nf. split_loop command_size k (cb, cmdName, cmdArgs, nameFinished) = Some (m, cn, ca, nf)
       \<and> length m = length cb
       \<and> (\<forall>j. m ! j = cb ! j \<or> (k \<le> j \<and> j < command_size \<and> cb ! j = SP \<and> m ! j = NUL))
       \<and> (cmdName \<noteq> None \<longrightarrow> cn = cmdName)
       \<and> (\<forall>a. ca = Some a \<longrightarrow> a < command_size)
       \<and> (\<forall>n. cn = Some n \<longrightarrow> n < command_size)"
  have ?goal
  proof (cases "k < command_size")
    case False
    then show ?thesis using prems by (subst split_loop.simps) auto
  next
    case True
    then have r: "rd cb k = Some (cb ! k)" using prems by (simp add: rd_def)
    have kl: "k < length cb" using True prems by simp
    consider (space) "cb ! k = SP" | (nm) "cb ! k \<noteq> SP" "cmdName = None"
      | (args) "cb ! k \<noteq> SP" "cmdName \<noteq> None" "cmdArgs = None \<and> nameFinished"
      | (other) "cb ! k \<noteq> SP" "cmdName \<noteq> None" "\<not> (cmdArgs = None \<and> nameFinished)"
      by blast
    then show ?thesis
    proof cases
      case space
      define m0 where "m0 = (if cmdArgs = None then cb[k := NUL] else cb)"
      have w: "(if cmdArgs = None then wr cb k NUL else Some cb) = Some m0"
        using kl by (simp add: m0_def wr_def)
      have len0: "command_size \<le> length m0" "length m0 = length cb"
        using prems by (simp_all add: m0_def)
      from IH(1) [OF True r space w refl len0(1) prems(2,3)]
      obtain m cn ca nf where res:
        "split_loop command_size (k + 1) (m0, cmdName, cmdArgs, nameFinished \<or> cmdName \<noteq> None) = Some (m, cn, ca, nf)"
        "length m = length m0"
        "\<forall>j. m ! j = m0 ! j \<or> (k + 1 \<le> j \<and> j < command_size \<and> m0 ! j = SP \<and> m ! j = NUL)"
        "cmdName \<noteq> None \<longrightarrow> cn = cmdName"
        "\<forall>a. ca = Some a \<longrightarrow> a < command_size" "\<forall>n. cn = Some n \<longrightarrow> n < command_size"
        by (elim exE conjE) (rule that)
      have fr: "\<forall>j. m ! j = cb ! j \<or> (k \<le> j \<and> j < command_size \<and> cb ! j = SP \<and> m ! j = NUL)"
      proof
        fix j
        show "m ! j = cb ! j \<or> (k \<le> j \<and> j < command_size \<and> cb ! j = SP \<and> m ! j = NUL)"
        proof (cases "j = k")
          case True
          from res(3) have "m ! j = m0 ! j \<or> (k + 1 \<le> j \<and> j < command_size \<and> m0 ! j = SP \<and> m ! j = NUL)"
            by (rule spec)
          then have "m ! j = m0 ! j" using True by simp
          then show ?thesis using True space kl \<open>k < command_size\<close> by (auto simp: m0_def)
        next
          case False
          then have "m0 ! j = cb ! j" by (simp add: m0_def)
          from res(3) have "m ! j = m0 ! j \<or> (k + 1 \<le> j \<and> j < command_size \<and> m0 ! j = SP \<and> m ! j = NUL)"
            by (rule spec)
          then show ?thesis using \<open>m0 ! j = cb ! j\<close> by auto
        qed
      qed
      show ?thesis
        using True r space w res(1,2,4,5,6) len0(2) fr
        by (subst split_loop.simps) simp
    next
      case nm
      have p: "\<forall>n. Some k = Some n \<longrightarrow> n < command_size" using True by simp
      from IH(2) [OF True r nm(1) nm(2) refl prems(1,2) p]
      obtain m cn ca nf where res:
        "split_loop command_size (k + 1) (cb, Some k, cmdArgs, nameFinished) = Some (m, cn, ca, nf)"
        "length m = length cb"
        "\<forall>j. m ! j = cb ! j \<or> (k + 1 \<le> j \<and> j < command_size \<and> cb ! j = SP \<and> m ! j = NUL)"
        "\<forall>a. ca = Some a \<longrightarrow> a < command_size" "\<forall>n. cn = Some n \<longrightarrow> n < command_size"
        by (elim exE conjE) (rule that)
      have fr: "\<forall>j. m ! j = cb ! j \<or> (k \<le> j \<and> j < command_size \<and> cb ! j = SP \<and> m ! j = NUL)"
        using res(3) by (rule frame_mono)
      show ?thesis
        using True r nm res(1,2,4,5) fr by (subst split_loop.simps) simp
    next
      case args
      have p: "\<forall>a. Some k = Some a \<longrightarrow> a < command_size" using True by simp
      from IH(3) [OF True r args(1) args(2) args(3) refl prems(1) p prems(3)]
      obtain m cn ca nf where res:
        "split_loop command_size (k + 1) (cb, cmdName, Some k, nameFinished) = Some (m, cn, ca, nf)"
        "length m = length cb"
        "\<forall>j. m ! j = cb ! j \<or> (k + 1 \<le> j \<and> j < command_size \<and> cb ! j = SP \<and> m ! j = NUL)"
        "cmdName \<noteq> None \<longrightarrow> cn = cmdName"
        "\<forall>a. ca = Some a \<longrightarrow> a < command_size" "\<forall>n. cn = Some n \<longrightarrow> n < command_size"
        by (elim exE conjE) (rule that)
      have fr: "\<forall>j. m ! j = cb ! j \<or> (k \<le> j \<and> j < command_size \<and> cb ! j = SP \<and> m ! j = NUL)"
        using res(3) by (rule frame_mono)
      from args(2) obtain n0 where n0: "cmdName = Some n0" by auto
      show ?thesis
        using True r args(1,3) res(1,2,4,5,6) fr unfolding n0 by (subst split_loop.simps) simp
    next
      case other
      from IH(4) [OF True r other(1) other(2) other(3) refl prems]
      obtain m cn ca nf where res:
        "split_loop command_size (k + 1) (cb, cmdName, cmdArgs, nameFinished) = Some (m, cn, ca, nf)"
        "length m = length cb"
        "\<forall>j. m ! j = cb ! j \<or> (k + 1 \<le> j \<and> j < command_size \<and> cb ! j = SP \<and> m ! j = NUL)"
        "cmdName \<noteq> None \<longrightarrow> cn = cmdName"
        "\<forall>a. ca = Some a \<longrightarrow> a < command_size" "\<forall>n. cn = Some n \<longrightarrow> n < command_size"
        by (elim exE conjE) (rule that)
      have fr: "\<forall>j. m ! j = cb ! j \<or> (k \<le> j \<and> j < command_size \<and> cb ! j = SP \<and> m ! j = NUL)"
        using res(3) by (rule frame_mono)
      from other(2) obtain n0 where n0: "cmdName = Some n0" by auto
      show ?thesis
        using True r other(1,3) res(1,2,4,5,6) fr unfolding n0 by (subst split_loop.simps) auto
    qed
  qed
  then show ?case unfolding eqs .
qed

lemma split_loop_frame:
  assumes "command_size \<le> length cb"
    and "\<forall>a. cmdArgs = Some a \<longrightarrow> a < command_size" "\<forall>n. cmdName = Some n \<longrightarrow> n < command_size"
  shows "\<exists>m cn ca nf. split_loop command_size k (cb, cmdName, cmdArgs, nameFinished) = Some (m, cn, ca, nf)
       \<and> length m = length cb
       \<and> (\<forall>j. m ! j = cb ! j \<or> (k \<le> j \<and> j < command_size \<and> cb ! j = SP \<and> m ! j = NUL))
       \<and> (cmdName \<noteq> None \<longrightarrow> cn = cmdName)
       \<and> (\<forall>a. ca = Some a \<longrightarrow> a < command_size)
       \<and> (\<forall>n. cn = Some n \<longrightarrow> n < command_size)"
  by (rule split_loop_frame_aux [OF refl assms])

lemma split_loop_step_other:
  assumes "k < n" "n \<le> length cb" "cb ! k \<noteq> SP"
  shows "split_loop n k (cb, Some i0, None, False) = split_loop n (k + 1) (cb, Some i0, None, False)"
  using assms by (subst split_loop.simps) (simp add: rd_def)

lemma split_loop_step_end:
  assumes "k < n" "n \<le> length cb" "cb ! k = SP"
  shows "split_loop n k (cb, Some i0, None, False) = split_loop n (k + 1) (cb[k := NUL], Some i0, None, True)"
  using assms by (subst split_loop.simps) (simp add: rd_def wr_def)

lemma split_loop_step_skip:
  assumes "k < n" "n \<le> length cb" "cb ! k = SP"
  shows "split_loop n k (cb, None, None, False) = split_loop n (k + 1) (cb[k := NUL], None, None, False)"
  using assms by (subst split_loop.simps) (simp add: rd_def wr_def)

lemma split_loop_step_name:
  assumes "k < n" "n \<le> length cb" "cb ! k \<noteq> SP"
  shows "split_loop n k (cb, None, None, False) = split_loop n (k + 1) (cb, Some k, None, False)"
  using assms by (subst split_loop.simps) (simp add: rd_def)

lemma split_loop_name_end:
  assumes "n \<le> length cb" "split_loop n k (cb, Some i0, None, False) = Some (m, cn, ca, nf)"
    "i0 < n" "k \<le> i1" "i1 < n" "cb ! i1 = SP" "\<forall>j. k \<le> j \<and> j < i1 \<longrightarrow> cb ! j \<noteq> SP"
  shows "m ! i1 = NUL"
  using assms
proof (induction "i1 - k" arbitrary: k)
  case 0
  then have k: "k = i1" by simp
  have run: "split_loop n (i1 + 1) (cb[i1 := NUL], Some i0, None, True) = Some (m, cn, ca, nf)"
    using split_loop_step_end [of i1 n cb i0] "0.prems" k by simp
  have len: "n \<le> length (cb[i1 := NUL])" using "0.prems"(1) by simp
  have p1: "\<forall>a. (None :: nat option) = Some a \<longrightarrow> a < n" by simp
  have p2: "\<forall>x. Some i0 = Some x \<longrightarrow> x < n" using "0.prems"(3) by simp
  from split_loop_frame [OF len p1 p2, of "i1 + 1" True] run
  have "\<forall>j. m ! j = cb[i1 := NUL] ! j \<or> (i1 + 1 \<le> j \<and> j < n \<and> cb[i1 := NUL] ! j = SP \<and> m ! j = NUL)"
    by simp
  then have "m ! i1 = cb[i1 := NUL] ! i1 \<or> (i1 + 1 \<le> i1 \<and> i1 < n \<and> cb[i1 := NUL] ! i1 = SP \<and> m ! i1 = NUL)"
    by (rule spec)
  then show ?case using "0.prems"(1,5) by simp
next
  case (Suc d)
  then have lt: "k < i1" by simp
  then have ns: "cb ! k \<noteq> SP" using Suc.prems(7) by simp
  have kn: "k < n" using lt Suc.prems(5) by simp
  have run: "split_loop n (k + 1) (cb, Some i0, None, False) = Some (m, cn, ca, nf)"
    using split_loop_step_other [OF kn Suc.prems(1) ns, of i0] Suc.prems(2) by simp
  have d: "d = i1 - (k + 1)" using Suc.hyps(2) by simp
  have rest: "\<forall>j. k + 1 \<le> j \<and> j < i1 \<longrightarrow> cb ! j \<noteq> SP" using Suc.prems(7) by simp
  show ?case
    using Suc.hyps(1) [OF d Suc.prems(1) run Suc.prems(3) _ Suc.prems(5,6) rest] lt by simp
qed

lemma split_loop_name_start:
  assumes "n \<le> length cb" "split_loop n k (cb, None, None, False) = Some (m, cn, ca, nf)"
    "k \<le> i0" "i0 < n" "cb ! i0 \<noteq> SP" "\<forall>j. k \<le> j \<and> j < i0 \<longrightarrow> cb ! j = SP"
  shows "cn = Some i0 \<and> (\<forall>i1. i0 < i1 \<and> i1 < n \<and> cb ! i1 = SP \<and> (\<forall>j. i0 < j \<and> j < i1 \<longrightarrow> cb ! j \<noteq> SP)
            \<longrightarrow> m ! i1 = NUL)"
  using assms
proof (induction "i0 - k" arbitrary: k cb)
  case 0
  then have k: "k = i0" by simp
  have run: "split_loop n (i0 + 1) (cb, Some i0, None, False) = Some (m, cn, ca, nf)"
    using split_loop_step_name [of i0 n cb] "0.prems" k by simp
  have p1: "\<forall>a. (None :: nat option) = Some a \<longrightarrow> a < n" by simp
  have p2: "\<forall>x. Some i0 = Some x \<longrightarrow> x < n" using "0.prems"(4) by simp
  from split_loop_frame [OF "0.prems"(1) p1 p2, of "i0 + 1" False] run
  have cn: "cn = Some i0" by simp
  have "m ! i1 = NUL" if h: "i0 < i1 \<and> i1 < n \<and> cb ! i1 = SP \<and> (\<forall>j. i0 < j \<and> j < i1 \<longrightarrow> cb ! j \<noteq> SP)" for i1
  proof (rule split_loop_name_end [OF "0.prems"(1) run "0.prems"(4)])
    show "i0 + 1 \<le> i1" using h by simp
    show "i1 < n" using h by simp
    show "cb ! i1 = SP" using h by simp
    show "\<forall>j. i0 + 1 \<le> j \<and> j < i1 \<longrightarrow> cb ! j \<noteq> SP" using h by simp
  qed
  with cn show ?case by simp
next
  case (Suc d)
  then have lt: "k < i0" by simp
  then have sp: "cb ! k = SP" using Suc.prems(6) by simp
  have kn: "k < n" using lt Suc.prems(4) by simp
  have run: "split_loop n (k + 1) (cb[k := NUL], None, None, False) = Some (m, cn, ca, nf)"
    using split_loop_step_skip [OF kn Suc.prems(1) sp] Suc.prems(2) by simp
  have d: "d = i0 - (k + 1)" using Suc.hyps(2) by simp
  have len: "n \<le> length (cb[k := NUL])" using Suc.prems(1) by simp
  have a1: "cb[k := NUL] ! i0 \<noteq> SP" using Suc.prems(5) lt by simp
  have a2: "\<forall>j. k + 1 \<le> j \<and> j < i0 \<longrightarrow> cb[k := NUL] ! j = SP" using Suc.prems(6) by simp
  from Suc.hyps(1) [OF d len run _ Suc.prems(4) a1 a2] lt
  have IH: "cn = Some i0 \<and> (\<forall>i1. i0 < i1 \<and> i1 < n \<and> cb[k := NUL] ! i1 = SP
       \<and> (\<forall>j. i0 < j \<and> j < i1 \<longrightarrow> cb[k := NUL] ! j \<noteq> SP) \<longrightarrow> m ! i1 = NUL)"
    by simp
  have eq: "cb[k := NUL] ! j = cb ! j" if "i0 \<le> j" for j using that lt by simp
  have "m ! i1 = NUL" if h: "i0 < i1 \<and> i1 < n \<and> cb ! i1 = SP \<and> (\<forall>j. i0 < j \<and> j < i1 \<longrightarrow> cb ! j \<noteq> SP)" for i1
  proof -
    have "i0 < i1 \<and> i1 < n \<and> cb[k := NUL] ! i1 = SP \<and> (\<forall>j. i0 < j \<and> j < i1 \<longrightarrow> cb[k := NUL] ! j \<noteq> SP)"
      using h eq by simp
    with IH show ?thesis by blast
  qed
  with IH show ?case by simp
qed

lemma strlen_bounded:
  assumes "m ! q = NUL" "p \<le> q" "q < length m"
  shows "\<exists>L. strlen m p = Some L \<and> p + L \<le> q"
proof -
  have "drop p m ! (q - p) = NUL" using assms by simp
  moreover have "q - p < length (drop p m)" using assms by simp
  ultimately have "NUL \<in> set (drop p m)" by (metis nth_mem)
  then obtain s where s: "c_str m p = Some s" by (simp add: c_str_def)
  have "p + length s \<le> q"
  proof (rule ccontr)
    assume "\<not> p + length s \<le> q"
    then have j: "q - p < length s" using assms(2) by simp
    from c_str_SomeD(3) [OF s j] assms(1,2) have "s ! (q - p) = NUL" by simp
    then have "NUL \<in> set s" using j by (metis nth_mem)
    with c_str_SomeD(4) [OF s] show False by simp
  qed
  with s show ?thesis by (simp add: strlen_def)
qed

lemma tokenize_total:
  assumes "strlen mem base = Some L" and "base + L + 2 \<le> length mem"
  shows "\<exists>a. embeddedCliTokenizeArgs mem (Some base) = Some a \<and> length a = length mem"
proof -
  note L = strlen_SomeD [OF assms(1)]
  have init: "tok_inv base mem L (tok_init mem)"
    by (simp add: tok_inv_def tok_init_def)
  from tok_loop_inv [OF init L]
  obtain s where s: "tok_loop base (tok_init mem) = Some s" and inv: "tok_inv base mem L s"
    by blast
  have ins: "t_insertPos s \<le> L" and len: "length (t_args s) = length mem"
    using inv by (auto simp: tok_inv_def)
  show ?thesis
    using s ins len assms(2) by (simp add: embeddedCliTokenizeArgs_def wr_def)
qed

lemma find_binding_None:
  "find_binding bs k nm = None \<longleftrightarrow> nm \<notin> name ` set bs"
  by (induction bs arbitrary: k) auto

lemma command_name_NUL: "command_name (s @ NUL # r) = command_name s"
proof (cases "\<forall>x \<in> set s. x = SP")
  case True
  have a: "dropWhile (\<lambda>c. c = SP) s = []"
    unfolding dropWhile_eq_Nil_conv by (rule True)
  have "dropWhile (\<lambda>c. c = SP) (s @ NUL # r) = dropWhile (\<lambda>c. c = SP) (NUL # r)"
    by (rule dropWhile_append2) (rule bspec [OF True])
  then have b: "dropWhile (\<lambda>c. c = SP) (s @ NUL # r) = NUL # r" by simp
  show ?thesis unfolding command_name_def a b by simp
next
  case False
  then obtain x where x: "x \<in> set s" "\<not> x = SP" by blast
  have d: "dropWhile (\<lambda>c. c = SP) (s @ NUL # r) = dropWhile (\<lambda>c. c = SP) s @ NUL # r"
    by (rule dropWhile_append1 [where P = "\<lambda>c. c = SP", OF x])
  let ?d = "dropWhile (\<lambda>c. c = SP) s"
  have "takeWhile (\<lambda>c. c \<noteq> SP \<and> c \<noteq> NUL) (?d @ NUL # r) = takeWhile (\<lambda>c. c \<noteq> SP \<and> c \<noteq> NUL) ?d"
  proof (cases "\<forall>y \<in> set ?d. y \<noteq> SP \<and> y \<noteq> NUL")
    case True
    have "takeWhile (\<lambda>c. c \<noteq> SP \<and> c \<noteq> NUL) (?d @ NUL # r)
        = ?d @ takeWhile (\<lambda>c. c \<noteq> SP \<and> c \<noteq> NUL) (NUL # r)"
      by (rule takeWhile_append2) (rule bspec [OF True])
    also have "\<dots> = ?d" by simp
    also have "?d = takeWhile (\<lambda>c. c \<noteq> SP \<and> c \<noteq> NUL) ?d"
    proof -
      have "takeWhile (\<lambda>c. c \<noteq> SP \<and> c \<noteq> NUL) ?d = ?d"
        unfolding takeWhile_eq_all_conv by (rule True)
      then show ?thesis by (rule sym)
    qed
    finally show ?thesis .
  next
    case False
    then obtain y where "y \<in> set ?d" "\<not> (y \<noteq> SP \<and> y \<noteq> NUL)" by blast
    then show ?thesis by (rule takeWhile_append1)
  qed
  then show ?thesis unfolding command_name_def d .
qed

lemma strncpy_bytes_SomeD:
  assumes "strncpy_bytes command len = Some bytes"
  shows "length bytes = len" and "command_name bytes = command_name (take len command)"
proof -
  let ?t = "take len command"
  let ?s = "takeWhile (\<lambda>c. c \<noteq> NUL) ?t"
  from assms have ok: "NUL \<in> set ?t \<or> len \<le> length command"
    and b: "bytes = ?s @ replicate (len - length ?s) NUL"
    by (auto simp: strncpy_bytes_def Let_def split: if_splits)
  have le: "length ?s \<le> length ?t" by (rule length_takeWhile_le)
  then show "length bytes = len" unfolding b by simp
  show "command_name bytes = command_name ?t"
  proof (cases "NUL \<in> set ?t")
    case True
    then have ne: "dropWhile (\<lambda>c. c \<noteq> NUL) ?t \<noteq> []" by simp
    have hd: "hd (dropWhile (\<lambda>c. c \<noteq> NUL) ?t) = NUL"
      using hd_dropWhile [OF ne] by simp
    obtain r where r: "dropWhile (\<lambda>c. c \<noteq> NUL) ?t = NUL # r"
      using ne hd by (cases "dropWhile (\<lambda>c. c \<noteq> NUL) ?t") simp_all
    have "?s @ dropWhile (\<lambda>c. c \<noteq> NUL) ?t = ?t" by (rule takeWhile_dropWhile_id)
    then have t: "?t = ?s @ NUL # r" unfolding r by simp
    have "length ?t = length (?s @ NUL # r)" by (rule arg_cong [OF t])
    moreover have "length (?s @ NUL # r) = length ?s + Suc (length r)" by simp
    ultimately have "length ?s < length ?t" by linarith
    then have "length ?s < len" by simp
    then obtain k where k: "len - length ?s = Suc k"
      by (cases "len - length ?s") simp_all
    have "bytes = ?s @ NUL # replicate k NUL" unfolding b k by simp
    then have "command_name bytes = command_name ?s" by (simp only: command_name_NUL)
    moreover have "command_name ?t = command_name ?s"
    proof -
      have "command_name ?t = command_name (?s @ NUL # r)" by (rule arg_cong [OF t])
      also have "\<dots> = command_name ?s" by (rule command_name_NUL)
      finally show ?thesis .
    qed
    ultimately show ?thesis by simp
  next
    case False
    then have s: "?s = ?t" by (auto simp: takeWhile_eq_all_conv)
    from False ok have "length ?t = len" by simp
    then show ?thesis unfolding b s by simp
  qed
qed

lemma split_loop_command_name:
  assumes len: "n + 1 < length cb" and nul: "cb ! n = NUL"
    and run: "split_loop n 0 (cb, None, None, False) = Some (m, cn, ca, nf)"
    and ne: "\<not> (\<forall>j. 0 \<le> j \<and> j < n \<longrightarrow> cb ! j = SP)"
  shows "\<exists>i0. cn = Some i0 \<and> c_str (m[n + 1 := NUL]) i0 = Some (command_name (take n cb))"
proof -
  let ?t = "take n cb"
  let ?pre = "takeWhile (\<lambda>c. c = SP) ?t"
  define i0 where "i0 = length ?pre"
  have lt: "length ?t = n" using len by simp
  have i0_le: "i0 \<le> n" unfolding i0_def using length_takeWhile_le [of "\<lambda>c. c = SP" ?t] lt by simp
  have pre_sp: "cb ! j = SP" if "j < i0" for j
  proof -
    have "?pre ! j = ?t ! j" using that unfolding i0_def by (rule takeWhile_nth)
    moreover have "?pre ! j \<in> set ?pre" using that unfolding i0_def by simp
    then have "?pre ! j = SP" by (auto dest: set_takeWhileD)
    ultimately show ?thesis using that i0_le by simp
  qed
  have i0_lt: "i0 < n"
  proof (rule ccontr)
    assume "\<not> i0 < n"
    then have "i0 = n" using i0_le by simp
    with pre_sp have "\<forall>j. 0 \<le> j \<and> j < n \<longrightarrow> cb ! j = SP" by simp
    with ne show False by simp
  qed
  have "\<not> (?t ! i0 = SP)"
    unfolding i0_def by (rule nth_length_takeWhile) (use i0_lt lt in \<open>simp add: i0_def\<close>)
  then have i0_ns: "cb ! i0 \<noteq> SP" using i0_lt by simp
  have n_le: "n \<le> length cb" using len by simp
  have p0: "\<forall>j. 0 \<le> j \<and> j < i0 \<longrightarrow> cb ! j = SP" using pre_sp by simp
  from split_loop_name_start [OF n_le run _ i0_lt i0_ns p0]
  have cn: "cn = Some i0"
    and nul_at: "\<And>i1. i0 < i1 \<Longrightarrow> i1 < n \<Longrightarrow> cb ! i1 = SP \<Longrightarrow> (\<forall>j. i0 < j \<and> j < i1 \<longrightarrow> cb ! j \<noteq> SP) \<Longrightarrow> m ! i1 = NUL"
    by simp_all
  have p1: "\<forall>a. (None :: nat option) = Some a \<longrightarrow> a < n" by simp
  have p2: "\<forall>x. (None :: nat option) = Some x \<longrightarrow> x < n" by simp
  from split_loop_frame [OF n_le p1 p2, of 0 False] run
  have mlen: "length m = length cb"
    and fr: "\<forall>j. m ! j = cb ! j \<or> (0 \<le> j \<and> j < n \<and> cb ! j = SP \<and> m ! j = NUL)"
    by simp_all
  have frj: "m ! j = cb ! j \<or> (j < n \<and> cb ! j = SP \<and> m ! j = NUL)" for j
    using spec [OF fr, of j] by simp
  let ?d = "drop i0 ?t"
  let ?nm = "takeWhile (\<lambda>c. c \<noteq> SP \<and> c \<noteq> NUL) ?d"
  have cname: "command_name ?t = ?nm"
    unfolding command_name_def i0_def by (simp only: dropWhile_eq_drop)
  define L where "L = length ?nm"
  have dlen: "length ?d = n - i0" using lt by simp
  have L_le: "i0 + L \<le> n" unfolding L_def using length_takeWhile_le [of "\<lambda>c. c \<noteq> SP \<and> c \<noteq> NUL" ?d] dlen i0_le by simp
  have nm_nth: "?nm ! j = cb ! (i0 + j)" if "j < L" for j
  proof -
    have "?nm ! j = ?d ! j" using that unfolding L_def by (rule takeWhile_nth)
    also have "\<dots> = cb ! (i0 + j)" using that L_le lt i0_le by simp
    finally show ?thesis .
  qed
  have nm_ok: "cb ! (i0 + j) \<noteq> SP \<and> cb ! (i0 + j) \<noteq> NUL" if "j < L" for j
  proof -
    have "?nm ! j \<in> set ?nm" using that unfolding L_def by simp
    then have "?nm ! j \<noteq> SP \<and> ?nm ! j \<noteq> NUL" by (auto dest: set_takeWhileD)
    then show ?thesis using nm_nth [OF that] by simp
  qed
  have stop: "cb ! (i0 + L) = SP \<or> cb ! (i0 + L) = NUL" if "i0 + L < n"
  proof -
    have "L < length ?d" using that dlen by simp
    then have "\<not> (?d ! L \<noteq> SP \<and> ?d ! L \<noteq> NUL)"
      unfolding L_def by (rule nth_length_takeWhile)
    moreover have "?d ! L = cb ! (i0 + L)" using that lt i0_le by simp
    ultimately show ?thesis by auto
  qed
  let ?m2 = "m[n + 1 := NUL]"
  have "c_str ?m2 i0 = Some ?nm"
  proof (rule c_str_eqI)
    show "i0 + length ?nm < length ?m2" using L_le len mlen by (simp add: L_def)
    show "NUL \<notin> set ?nm" by (auto dest: set_takeWhileD)
    have "m ! (i0 + L) = NUL"
    proof (cases "i0 + L < n")
      case False
      then have e: "i0 + L = n" using L_le by simp
      show ?thesis using frj [of n] nul unfolding e by simp
    next
      case True
      from stop [OF True] show ?thesis
      proof
        assume z: "cb ! (i0 + L) = NUL"
        then show ?thesis using frj [of "i0 + L"] by auto
      next
        assume sp: "cb ! (i0 + L) = SP"
        have "L \<noteq> 0" using sp i0_ns by (cases L) auto
        then have a: "i0 < i0 + L" by simp
        have b: "\<forall>j. i0 < j \<and> j < i0 + L \<longrightarrow> cb ! j \<noteq> SP"
        proof (intro allI impI)
          fix j assume j: "i0 < j \<and> j < i0 + L"
          then have "j - i0 < L" by arith
          from nm_ok [OF this] j show "cb ! j \<noteq> SP" by simp
        qed
        from nul_at [OF a True sp b] show ?thesis .
      qed
    qed
    then show "?m2 ! (i0 + length ?nm) = NUL" using L_le by (simp add: L_def)
    show "take (length ?nm) (drop i0 ?m2) = ?nm"
    proof (rule nth_equalityI)
      show "length (take (length ?nm) (drop i0 ?m2)) = length ?nm"
        using L_le len mlen by (simp add: L_def)
    next
      fix j assume "j < length (take (length ?nm) (drop i0 ?m2))"
      then have j: "j < L" by (simp add: L_def)
      have "take (length ?nm) (drop i0 ?m2) ! j = ?m2 ! (i0 + j)"
        using j L_le len mlen by (simp add: L_def)
      also have "\<dots> = m ! (i0 + j)" using j L_le by simp
      also have "\<dots> = cb ! (i0 + j)" using frj [of "i0 + j"] nm_ok [OF j] by auto
      also have "\<dots> = ?nm ! j" using nm_nth [OF j] by simp
      finally show "take (length ?nm) (drop i0 ?m2) ! j = ?nm ! j" .
    qed
  qed
  with cn cname show ?thesis by simp
qed

lemma invoke_binding_direct:
  assumes "(if tokenizeArgs b then embeddedCliTokenizeArgs m ca else Some m) = Some t"
  shows "\<exists>c ev. invoke_binding cli m k b handler ca True = Some (0, c, t)
       \<and> history c = history cli
       \<and> calls c = calls cli @ ev \<and> list_all binding_call ev"
  using assms by (simp add: invoke_binding_def Let_def)

lemma internal_parseCommand_direct:
  assumes len: "length cb = n + 2" and nul: "cb ! n = NUL"
  shows "\<exists>ret c1 m ev. internal_parseCommand cli cb n True = Some (ret, c1, m)
       \<and> history c1 = history cli
       \<and> calls c1 = calls cli @ ev \<and> list_all binding_call ev
       \<and> (command_name (take n cb) \<notin> name ` set (bindings cli) \<longrightarrow> ret = 1 \<and> c1 = cli)"
proof -
  have n_le: "n \<le> length cb" using len by simp
  note isE = isEmpty_loop_spec [OF n_le, of 0]
  have triv: "cli\<lparr>history := history cli\<rparr> = cli" by simp
  show ?thesis
  proof (cases "\<forall>j. 0 \<le> j \<and> j < n \<longrightarrow> cb ! j = SP")
    case True
    then have "internal_parseCommand cli cb n True = Some (1, cli, cb)"
      using isE by (simp add: internal_parseCommand_def)
    then show ?thesis by simp
  next
    case False
    have p1: "\<forall>a. (None :: nat option) = Some a \<longrightarrow> a < n" by simp
    from split_loop_frame [OF n_le p1 p1, of 0 False]
    obtain m1 cn ca nf where run: "split_loop n 0 (cb, None, None, False) = Some (m1, cn, ca, nf)"
      and mlen: "length m1 = length cb"
      and fr: "\<forall>j. m1 ! j = cb ! j \<or> (0 \<le> j \<and> j < n \<and> cb ! j = SP \<and> m1 ! j = NUL)"
      and cab: "\<forall>a. ca = Some a \<longrightarrow> a < n"
      by (elim exE conjE) (rule that)
    let ?m2 = "m1[Suc n := NUL]"
    have w: "wr m1 (n + 1) NUL = Some ?m2" using mlen len by (simp add: wr_def)
    have len2: "n + 1 < length cb" using len by simp
    from split_loop_command_name [OF len2 nul run False]
    obtain i0 where cn: "cn = Some i0"
      and nm: "c_str ?m2 i0 = Some (command_name (take n cb))" by auto
    let ?nm = "command_name (take n cb)"
    have unb: "unbound_command cli ?m2 ?nm ca True = Some (1, cli, ?m2)"
      by (simp add: unbound_command_def)
    have m2n: "?m2 ! n = NUL" using spec [OF fr, of n] nul by simp
    have tok: "\<exists>t. (if tokenizeArgs b then embeddedCliTokenizeArgs ?m2 ca else Some ?m2) = Some t" for b
    proof (cases ca)
      case None
      then show ?thesis by (simp add: embeddedCliTokenizeArgs_def)
    next
      case (Some a)
      then have a: "a < n" using cab by simp
      have "\<exists>L. strlen ?m2 a = Some L \<and> a + L \<le> n"
        by (rule strlen_bounded [OF m2n]) (use a mlen len in simp_all)
      then obtain L where L: "strlen ?m2 a = Some L" "a + L \<le> n" by blast
      have "a + L + 2 \<le> length ?m2" using L(2) mlen len by simp
      from tokenize_total [OF L(1) this] show ?thesis using Some by auto
    qed
    have isE': "isEmpty_loop cb n 0 = Some False" using isE False by simp
    let ?c = "cli\<lparr>history := history cli\<rparr>"
    have "internal_parseCommand cli cb n True =
        (case find_binding (bindings cli) 0 ?nm of
           None \<Rightarrow> unbound_command ?c ?m2 ?nm ca True
         | Some (k, b) \<Rightarrow>
             (case binding b of
                None \<Rightarrow> unbound_command ?c ?m2 ?nm ca True
              | Some handler \<Rightarrow> invoke_binding ?c ?m2 k b handler ca True))"
      unfolding internal_parseCommand_def isE' using run w cn nm by simp
    then have start: "internal_parseCommand cli cb n True =
        (case find_binding (bindings cli) 0 ?nm of
           None \<Rightarrow> unbound_command cli ?m2 ?nm ca True
         | Some (k, b) \<Rightarrow>
             (case binding b of
                None \<Rightarrow> unbound_command cli ?m2 ?nm ca True
              | Some handler \<Rightarrow> invoke_binding cli ?m2 k b handler ca True))"
      unfolding triv .
    show ?thesis
    proof (cases "find_binding (bindings cli) 0 ?nm")
      case None
      then have "internal_parseCommand cli cb n True = Some (1, cli, ?m2)"
        using start unb by simp
      then show ?thesis by simp
    next
      case (Some kb)
      obtain k b where kb: "kb = (k, b)" by (cases kb)
      have matched: "?nm \<in> name ` set (bindings cli)"
        using Some find_binding_None [of "bindings cli" 0 ?nm] by auto
      show ?thesis
      proof (cases "binding b")
        case None
        then have "internal_parseCommand cli cb n True = Some (1, cli, ?m2)"
          using start unb Some kb by simp
        then show ?thesis by simp
      next
        case (Some handler)
        from tok [of b] obtain t
          where t: "(if tokenizeArgs b then embeddedCliTokenizeArgs ?m2 ca else Some ?m2) = Some t"
          by blast
        from invoke_binding_direct [OF t, of cli k handler]
        obtain c ev where c: "invoke_binding cli ?m2 k b handler ca True = Some (0, c, t)"
          "history c = history cli" "calls c = calls cli @ ev" "list_all binding_call ev"
          by blast
        have "internal_parseCommand cli cb n True = Some (0, c, t)"
          using start \<open>find_binding (bindings cli) 0 ?nm = Some kb\<close> kb Some c(1) by simp
        then show ?thesis using c(2,3,4) matched by simp
      qed
    qed
  qed
qed

text \<open>
  C8. \<^verbatim>\<open>embeddedCliParseDirectCommand\<close> returns for every command that can be read
  for \<open>len\<close> bytes or up to a NUL before that. It leaves the history as it is, and
  the only calls it makes are those of a binding (its handler and \<^verbatim>\<open>postCommand\<close>):
  there is no output and no call of \<^verbatim>\<open>onCommand\<close>. When no binding has the name of
  the command, it returns 1 and the engine is unchanged: nothing is called and nothing is
  written.
\<close>

theorem direct_mode_skips_history_and_fallback:
  assumes "NUL \<in> set (take len command) \<or> len \<le> length command"
  shows "\<exists>ret cli' ev. embeddedCliParseDirectCommand cli command len uninit = Some (ret, cli')
       \<and> history cli' = history cli
       \<and> calls cli' = calls cli @ ev \<and> list_all binding_call ev
       \<and> (command_name (take len command) \<notin> name ` set (bindings cli) \<longrightarrow> ret = 1 \<and> cli' = cli)"
proof -
  from assms obtain bytes where b: "strncpy_bytes command len = Some bytes"
    by (auto simp: strncpy_bytes_def Let_def)
  note bl = strncpy_bytes_SomeD [OF b]
  let ?cb = "bytes @ [NUL, uninit]"
  have l: "length ?cb = len + 2" using bl(1) by simp
  have z: "?cb ! len = NUL" using bl(1) by (simp add: nth_append)
  have tk: "take len ?cb = bytes" using bl(1) by simp
  from internal_parseCommand_direct [OF l z, of cli]
  obtain ret c1 m ev where r: "internal_parseCommand cli ?cb len True = Some (ret, c1, m)"
    "history c1 = history cli" "calls c1 = calls cli @ ev" "list_all binding_call ev"
    "command_name (take len ?cb) \<notin> name ` set (bindings cli) \<longrightarrow> ret = 1 \<and> c1 = cli"
    by (elim exE conjE) (rule that)
  have "embeddedCliParseDirectCommand cli command len uninit = Some (ret, c1)"
    using b r(1) by (simp add: embeddedCliParseDirectCommand_def)
  moreover have "command_name (take len command) \<notin> name ` set (bindings cli) \<longrightarrow> ret = 1 \<and> c1 = cli"
    using r(5) unfolding tk bl(2) .
  ultimately show ?thesis using r(2,3,4) by simp
qed

theorem direct_mode_skips_history_and_fallback_witness:
  "length ''set 1'' = 5
   \<and> command_name (take 5 ''set 1'') = ''set''
   \<and> map name (bindings (example_cli [example_binding ''get''] [])) = [''get'']
   \<and> embeddedCliParseDirectCommand (example_cli [example_binding ''get''] []) ''set 1'' 5 (CHR ''x'')
       = Some (1, example_cli [example_binding ''get''] [])"
proof -
  have h: "NUL \<in> set (take 5 ''set 1'') \<or> 5 \<le> length ''set 1''" by simp
  have c: "command_name (take 5 ''set 1'') = ''set''" by (simp add: command_name_def)
  have n: "map name (bindings (example_cli [example_binding ''get''] [])) = [''get'']"
    by (simp add: example_cli_def example_binding_def)
  have nomatch: "command_name (take 5 ''set 1'') \<notin> name ` set (bindings (example_cli [example_binding ''get''] []))"
    unfolding c by (simp add: example_cli_def example_binding_def)
  from direct_mode_skips_history_and_fallback [OF h, of "example_cli [example_binding ''get''] []" "CHR ''x''"] nomatch
  have "embeddedCliParseDirectCommand (example_cli [example_binding ''get''] []) ''set 1'' 5 (CHR ''x'')
       = Some (1, example_cli [example_binding ''get''] [])"
    by auto
  with c n show ?thesis by simp
qed

section \<open>Line terminators\<close>











section \<open>The history buffer\<close>

subsection \<open>The layout of a well-formed history\<close>

lemma layout_simps [simp]:
  "layout [] = []" "layout (s # ss) = s @ NUL # layout ss" "layout (xs @ ys) = layout xs @ layout ys"
  by (simp_all add: layout_def)

lemma layout_length_ge: "length ss \<le> length (layout ss)"
  by (induction ss) auto

lemma layout_split:
  assumes "k < length ss"
  shows "layout ss = layout (take k ss) @ (ss ! k) @ NUL # layout (drop (Suc k) ss)"
proof -
  have "ss = take k ss @ ss ! k # drop (Suc k) ss" using assms by (rule id_take_nth_drop)
  then have "layout ss = layout (take k ss @ ss ! k # drop (Suc k) ss)" by simp
  then show ?thesis by simp
qed

lemma layout_take_Suc:
  assumes "k < length ss"
  shows "layout (take (Suc k) ss) = layout (take k ss) @ (ss ! k) @ [NUL]"
  using assms by (simp add: take_Suc_conv_app_nth)

lemma prefix_nth:
  assumes "length p \<le> length b" "take (length p) b = p" "i < length p"
  shows "b ! i = p ! i"
proof -
  have "b ! i = take (length p) b ! i" using assms(3) by simp
  then show ?thesis using assms(2) by simp
qed

text \<open>Reading the buffer of a well-formed history inside item \<open>k\<close> (0-based).\<close>

lemma wf_hist_nth:
  assumes wf: "wf_hist h ss" and k: "k < length ss"
  shows "j < length (ss ! k) \<Longrightarrow> buf h ! (length (layout (take k ss)) + j) = ss ! k ! j"
    and "buf h ! (length (layout (take k ss)) + length (ss ! k)) = NUL"
    and "length (layout (take k ss)) + length (ss ! k) < length (buf h)"
    and "ss ! k \<noteq> []" and "NUL \<notin> set (ss ! k)"
proof -
  let ?o = "length (layout (take k ss))"
  let ?p = "layout ss"
  have sp: "?p = layout (take k ss) @ (ss ! k) @ NUL # layout (drop (Suc k) ss)"
    by (rule layout_split [OF k])
  have le: "length ?p \<le> length (buf h)" and tk: "take (length ?p) (buf h) = ?p"
    using wf by (simp_all add: wf_hist_def)
  have lp: "length ?p = ?o + length (ss ! k) + 1 + length (layout (drop (Suc k) ss))"
    by (subst sp) simp
  show "buf h ! (?o + j) = ss ! k ! j" if j: "j < length (ss ! k)"
  proof -
    have "buf h ! (?o + j) = ?p ! (?o + j)"
      by (rule prefix_nth [OF le tk]) (use lp j in simp)
    also have "\<dots> = ss ! k ! j" by (subst sp) (use j in \<open>simp add: nth_append\<close>)
    finally show ?thesis .
  qed
  show "buf h ! (?o + length (ss ! k)) = NUL"
  proof -
    have "buf h ! (?o + length (ss ! k)) = ?p ! (?o + length (ss ! k))"
      by (rule prefix_nth [OF le tk]) (use lp in simp)
    also have "\<dots> = NUL" by (subst sp) (simp add: nth_append)
    finally show ?thesis .
  qed
  show "?o + length (ss ! k) < length (buf h)" using le lp by simp
  have "ss ! k \<in> set ss" using k by simp
  then show "ss ! k \<noteq> []" "NUL \<notin> set (ss ! k)"
    using wf by (auto simp: wf_hist_def list_all_iff)
qed

lemma wf_hist_c_str:
  assumes wf: "wf_hist h ss" and k: "k < length ss"
  shows "c_str (buf h) (length (layout (take k ss))) = Some (ss ! k)"
proof (rule c_str_eqI)
  note N = wf_hist_nth [OF wf k]
  show "length (layout (take k ss)) + length (ss ! k) < length (buf h)" by (rule N(3))
  show "NUL \<notin> set (ss ! k)" by (rule N(5))
  show "buf h ! (length (layout (take k ss)) + length (ss ! k)) = NUL" by (rule N(2))
  show "take (length (ss ! k)) (drop (length (layout (take k ss))) (buf h)) = ss ! k"
  proof (rule nth_equalityI)
    show "length (take (length (ss ! k)) (drop (length (layout (take k ss))) (buf h))) = length (ss ! k)"
      using N(3) by simp
  next
    fix j assume "j < length (take (length (ss ! k)) (drop (length (layout (take k ss))) (buf h)))"
    then have j: "j < length (ss ! k)" by simp
    then show "take (length (ss ! k)) (drop (length (layout (take k ss))) (buf h)) ! j = ss ! k ! j"
      using N(1) [OF j] N(3) by simp
  qed
qed

subsection \<open>Finding an item\<close>

lemma u16_id: "n < 65536 \<Longrightarrow> u16 n = n"
  by (simp add: u16_def)

lemma token_scan_inside:
  assumes wf: "wf_hist h ss" and k: "Suc k < length ss" and ne: "Suc k \<noteq> pos"
    and j: "j \<le> length (ss ! k)"
  shows "getTokenPosition_loop (buf h) pos (length (layout (take k ss)) + j) (Suc k)
       = getTokenPosition_loop (buf h) pos (length (layout (take (Suc k) ss))) (Suc (Suc k))"
  using j
proof (induction "length (ss ! k) - j" arbitrary: j)
  case 0
  then have j: "j = length (ss ! k)" by simp
  have k0: "k < length ss" using k by simp
  note N = wf_hist_nth [OF wf k0]
  note N1 = wf_hist_nth [OF wf k]
  let ?o = "length (layout (take k ss))"
  have o1: "length (layout (take (Suc k) ss)) = ?o + length (ss ! k) + 1"
    using layout_take_Suc [OF k0] by simp
  have L: "length (buf h) < 65536" using wf by (simp add: wf_hist_def)
  have r0: "rd (buf h) (?o + j) = Some NUL" using N(2,3) j by (simp add: rd_def)
  have lt1: "?o + j + 1 < length (buf h)" using N1(3) o1 j by simp
  have "buf h ! (?o + j + 1) = ss ! Suc k ! 0"
    using N1(1) [of 0] N1(4) o1 j by simp
  moreover have "ss ! Suc k ! 0 \<in> set (ss ! Suc k)" using N1(4) by simp
  ultimately have nz: "buf h ! (?o + j + 1) \<noteq> NUL" using N1(5) by metis
  have r1: "rd (buf h) (?o + j + 1) = Some (buf h ! (?o + j + 1))" using lt1 by (simp add: rd_def)
  have u1: "u16 (?o + j + 1) = ?o + j + 1" using lt1 L by (simp add: u16_id)
  have "Suc (Suc k) \<le> length (layout ss)" using k layout_length_ge [of ss] by linarith
  moreover have "length (layout ss) \<le> length (buf h)" using wf by (simp add: wf_hist_def)
  ultimately have u2: "u16 (Suc k + 1) = Suc (Suc k)" using L by (simp add: u16_id)
  show ?case
    apply (subst getTokenPosition_loop.simps)
    using ne r0 r1 nz u1 u2 o1 j by simp
next
  case (Suc d)
  then have jl: "j < length (ss ! k)" by simp
  have k0: "k < length ss" using k by simp
  note N = wf_hist_nth [OF wf k0]
  let ?o = "length (layout (take k ss))"
  have L: "length (buf h) < 65536" using wf by (simp add: wf_hist_def)
  have lt: "?o + j < length (buf h)" using N(3) jl by simp
  have "ss ! k ! j \<in> set (ss ! k)" using jl by simp
  then have nz: "buf h ! (?o + j) \<noteq> NUL" using N(1) [OF jl] N(5) by metis
  have r0: "rd (buf h) (?o + j) = Some (buf h ! (?o + j))" using lt by (simp add: rd_def)
  have u1: "u16 (?o + j + 1) = ?o + (j + 1)" using lt L by (simp add: u16_id)
  have d: "d = length (ss ! k) - (j + 1)" using Suc.hyps(2) by simp
  have "getTokenPosition_loop (buf h) pos (?o + (j + 1)) (Suc k)
       = getTokenPosition_loop (buf h) pos (length (layout (take (Suc k) ss))) (Suc (Suc k))"
    by (rule Suc.hyps(1) [OF d]) (use jl in simp)
  then show ?case
    apply (subst getTokenPosition_loop.simps)
    using ne r0 nz u1 by simp
qed

lemma token_scan:
  assumes wf: "wf_hist h ss" and pos: "0 < pos" "pos \<le> length ss" and k: "Suc k \<le> pos"
  shows "getTokenPosition_loop (buf h) pos (length (layout (take k ss))) (Suc k)
       = Some (length (layout (take (pos - 1) ss)))"
  using k
proof (induction "pos - Suc k" arbitrary: k)
  case 0
  then have "Suc k = pos" by simp
  then show ?case by (subst getTokenPosition_loop.simps) auto
next
  case (Suc d)
  then have lt: "Suc k < pos" by simp
  then have k1: "Suc k < length ss" and ne: "Suc k \<noteq> pos" using pos by simp_all
  have "getTokenPosition_loop (buf h) pos (length (layout (take k ss)) + 0) (Suc k)
       = getTokenPosition_loop (buf h) pos (length (layout (take (Suc k) ss))) (Suc (Suc k))"
    by (rule token_scan_inside [OF wf k1 ne]) simp
  moreover have "getTokenPosition_loop (buf h) pos (length (layout (take (Suc k) ss))) (Suc (Suc k))
       = Some (length (layout (take (pos - 1) ss)))"
    by (rule Suc.hyps(1)) (use Suc.hyps(2) lt in simp_all)
  ultimately show ?case by simp
qed

lemma wf_hist_get_token:
  assumes wf: "wf_hist h ss" and pos: "0 < pos" "pos \<le> length ss"
  shows "embeddedCliGetToken (Some (buf h)) pos = Some (Some (length (layout (take (pos - 1) ss))))"
proof -
  let ?o = "length (layout (take (pos - 1) ss))"
  have k: "pos - 1 < length ss" using pos by simp
  note N = wf_hist_nth [OF wf k]
  have L: "length (buf h) < 65536" using wf by (simp add: wf_hist_def)
  have "getTokenPosition_loop (buf h) pos (length (layout (take 0 ss))) (Suc 0) = Some ?o"
    by (rule token_scan [OF wf pos]) (use pos in simp)
  then have loop: "getTokenPosition_loop (buf h) pos 0 1 = Some ?o" by simp
  have lt: "?o < length (buf h)" using N(3) by simp
  have "buf h ! ?o = ss ! (pos - 1) ! 0" using N(1) [of 0] N(4) by simp
  moreover have "ss ! (pos - 1) ! 0 \<in> set (ss ! (pos - 1))" using N(4) by simp
  ultimately have nz: "buf h ! ?o \<noteq> NUL" using N(5) by metis
  have "getTokenPosition (Some (buf h)) pos = Some ?o"
    using pos(1) loop lt nz by (simp add: getTokenPosition_def rd_def)
  moreover have "?o \<noteq> CLI_TOKEN_NPOS" using lt L by (simp add: CLI_TOKEN_NPOS_def)
  ultimately show ?thesis by (simp add: embeddedCliGetToken_def)
qed

lemma wf_hist_get:
  assumes wf: "wf_hist h ss" and pos: "0 < pos" "pos \<le> length ss"
  shows "historyGet h pos = Some (Some (length (layout (take (pos - 1) ss))))"
    and "history_item h pos = Some (ss ! (pos - 1))"
proof -
  have c: "itemsCount h = length ss" using wf by (simp add: wf_hist_def)
  show g: "historyGet h pos = Some (Some (length (layout (take (pos - 1) ss))))"
    using wf_hist_get_token [OF wf pos] pos c by (simp add: historyGet_def)
  have k: "pos - 1 < length ss" using pos by simp
  show "history_item h pos = Some (ss ! (pos - 1))"
    using g wf_hist_c_str [OF wf k] by (simp add: history_item_def)
qed

subsection \<open>Removing an item\<close>

lemma layout_length_ge2:
  "list_all (\<lambda>s. s \<noteq> [] \<and> NUL \<notin> set s) ss \<Longrightarrow> 2 * length ss \<le> length (layout ss)"
proof (induction ss)
  case Nil
  show ?case by simp
next
  case (Cons s ss)
  then have "s \<noteq> []" and "2 * length ss \<le> length (layout ss)" by simp_all
  moreover from \<open>s \<noteq> []\<close> have "1 \<le> length s" by (cases s) simp_all
  ultimately show ?case by simp
qed

lemma wf_hist_count:
  assumes "wf_hist h ss"
  shows "2 * length ss \<le> length (buf h)" and "length (buf h) < 65536" and "itemsCount h = length ss"
proof -
  have "2 * length ss \<le> length (layout ss)"
    by (rule layout_length_ge2) (use assms in \<open>simp add: wf_hist_def\<close>)
  moreover have "length (layout ss) \<le> length (buf h)" using assms by (simp add: wf_hist_def)
  ultimately show "2 * length ss \<le> length (buf h)" by simp
  show "length (buf h) < 65536" "itemsCount h = length ss" using assms by (simp_all add: wf_hist_def)
qed

lemma wf_hist_take:
  assumes wf: "wf_hist h ss" and m: "m \<le> length ss"
  shows "wf_hist (h\<lparr>itemsCount := m\<rparr>) (take m ss)"
proof -
  have s: "layout ss = layout (take m ss) @ layout (drop m ss)"
    using layout_simps(3) [of "take m ss" "drop m ss"] by simp
  have le: "length (layout ss) \<le> length (buf h)"
    and tk: "take (length (layout ss)) (buf h) = layout ss"
    and al: "list_all (\<lambda>s. s \<noteq> [] \<and> NUL \<notin> set s) ss"
    and L: "length (buf h) < 65536"
    using wf by (simp_all add: wf_hist_def)
  have l2: "length (layout (take m ss)) \<le> length (layout ss)" using s by simp
  have "take (length (layout (take m ss))) (take (length (layout ss)) (buf h))
      = take (length (layout (take m ss))) (layout ss)" using tk by simp
  then have "take (length (layout (take m ss))) (buf h) = take (length (layout (take m ss))) (layout ss)"
    using l2 by (simp add: min_def)
  also have "\<dots> = layout (take m ss)" using s by simp
  finally have t: "take (length (layout (take m ss))) (buf h) = layout (take m ss)" .
  have "set (take m ss) \<subseteq> set ss" by (rule set_take_subset)
  then have al2: "list_all (\<lambda>s. s \<noteq> [] \<and> NUL \<notin> set s) (take m ss)"
    using al by (auto simp: list_all_iff)
  show ?thesis using l2 le t al2 L m by (simp add: wf_hist_def)
qed

lemma historyRemove_loop_found:
  assumes wf: "wf_hist h ss" and j: "j < length ss" and eq: "ss ! j = s"
    and before: "\<forall>k. i - 1 \<le> k \<and> k < j \<longrightarrow> ss ! k \<noteq> s"
    and i: "1 \<le> i" "i \<le> Suc j"
  shows "historyRemove_loop h s i = Some (Some (length (layout (take j ss))), Suc j)"
  using before i
proof (induction "Suc j - i" arbitrary: i)
  case 0
  then have i: "i = Suc j" by simp
  have c: "itemsCount h = length ss" using wf by (simp add: wf_hist_def)
  have pos: "0 < i" "i \<le> length ss" using i j by simp_all
  have g: "embeddedCliGetTokenVariable (Some (buf h)) i = Some (Some (length (layout (take j ss))))"
    using wf_hist_get_token [OF wf pos] i by (simp add: embeddedCliGetTokenVariable_def)
  have s: "c_str (buf h) (length (layout (take j ss))) = Some s"
    using wf_hist_c_str [OF wf j] eq by simp
  show ?case
    apply (subst historyRemove_loop.simps)
    using pos c g s i by simp
next
  case (Suc d)
  then have lt: "i \<le> j" by simp
  have c: "itemsCount h = length ss" using wf by (simp add: wf_hist_def)
  have pos: "0 < i" "i \<le> length ss" using Suc.prems lt j by simp_all
  have k: "i - 1 < length ss" using pos by simp
  have g: "embeddedCliGetTokenVariable (Some (buf h)) i = Some (Some (length (layout (take (i - 1) ss))))"
    using wf_hist_get_token [OF wf pos] by (simp add: embeddedCliGetTokenVariable_def)
  have s: "c_str (buf h) (length (layout (take (i - 1) ss))) = Some (ss ! (i - 1))"
    by (rule wf_hist_c_str [OF wf k])
  have "i - 1 \<le> i - 1 \<and> i - 1 < j" using lt pos by simp
  then have ne: "ss ! (i - 1) \<noteq> s" using Suc.prems(1) by blast
  have "i + 1 < 65536" using wf_hist_count(1,2) [OF wf] pos by simp
  then have u: "u16 (i + 1) = Suc i" by (simp add: u16_id)
  have d: "d = Suc j - Suc i" using Suc.hyps(2) by simp
  have b2: "\<forall>k. Suc i - 1 \<le> k \<and> k < j \<longrightarrow> ss ! k \<noteq> s"
  proof (intro allI impI)
    fix k assume "Suc i - 1 \<le> k \<and> k < j"
    then have "i - 1 \<le> k \<and> k < j" by auto
    then show "ss ! k \<noteq> s" using Suc.prems(1) by blast
  qed
  have IH: "historyRemove_loop h s (Suc i) = Some (Some (length (layout (take j ss))), Suc j)"
    by (rule Suc.hyps(1) [OF d b2]) (use lt in simp_all)
  show ?case
    apply (subst historyRemove_loop.simps)
    using pos c g s ne u IH by simp
qed

lemma historyRemove_loop_absent:
  assumes wf: "wf_hist h ss"
    and before: "\<forall>k. i - 1 \<le> k \<and> k < length ss \<longrightarrow> ss ! k \<noteq> s"
    and i: "1 \<le> i" "i \<le> Suc (length ss)"
  shows "historyRemove_loop h s i = Some (None, Suc (length ss))"
  using before i
proof (induction "Suc (length ss) - i" arbitrary: i)
  case 0
  then have i: "i = Suc (length ss)" by simp
  have c: "itemsCount h = length ss" using wf by (simp add: wf_hist_def)
  show ?case
    apply (subst historyRemove_loop.simps)
    using c i by simp
next
  case (Suc d)
  then have lt: "i \<le> length ss" by simp
  have c: "itemsCount h = length ss" using wf by (simp add: wf_hist_def)
  have pos: "0 < i" "i \<le> length ss" using Suc.prems lt by simp_all
  have k: "i - 1 < length ss" using pos by simp
  have g: "embeddedCliGetTokenVariable (Some (buf h)) i = Some (Some (length (layout (take (i - 1) ss))))"
    using wf_hist_get_token [OF wf pos] by (simp add: embeddedCliGetTokenVariable_def)
  have s: "c_str (buf h) (length (layout (take (i - 1) ss))) = Some (ss ! (i - 1))"
    by (rule wf_hist_c_str [OF wf k])
  have "i - 1 \<le> i - 1 \<and> i - 1 < length ss" using k by simp
  then have ne: "ss ! (i - 1) \<noteq> s" using Suc.prems(1) by blast
  have "i + 1 < 65536" using wf_hist_count(1,2) [OF wf] pos by simp
  then have u: "u16 (i + 1) = Suc i" by (simp add: u16_id)
  have d: "d = Suc (length ss) - Suc i" using Suc.hyps(2) by simp
  have b2: "\<forall>k. Suc i - 1 \<le> k \<and> k < length ss \<longrightarrow> ss ! k \<noteq> s"
  proof (intro allI impI)
    fix k assume "Suc i - 1 \<le> k \<and> k < length ss"
    then have "i - 1 \<le> k \<and> k < length ss" by auto
    then show "ss ! k \<noteq> s" using Suc.prems(1) by blast
  qed
  have IH: "historyRemove_loop h s (Suc i) = Some (None, Suc (length ss))"
    by (rule Suc.hyps(1) [OF d b2]) (use lt in simp_all)
  show ?case
    apply (subst historyRemove_loop.simps)
    using pos c g s ne u IH by simp
qed

lemma first_occurrence_aux:
  "s \<in> set ss \<Longrightarrow>
     length (takeWhile (\<lambda>x. x \<noteq> s) ss) < length ss
   \<and> ss ! length (takeWhile (\<lambda>x. x \<noteq> s) ss) = s
   \<and> (\<forall>k. k < length (takeWhile (\<lambda>x. x \<noteq> s) ss) \<longrightarrow> ss ! k \<noteq> s)
   \<and> remove1 s ss = take (length (takeWhile (\<lambda>x. x \<noteq> s) ss)) ss
        @ drop (Suc (length (takeWhile (\<lambda>x. x \<noteq> s) ss))) ss"
proof (induction ss)
  case Nil
  then show ?case by simp
next
  case (Cons a ss)
  show ?case
  proof (cases "a = s")
    case True
    then show ?thesis by simp
  next
    case False
    then have "s \<in> set ss" using Cons.prems by simp
    note IH = Cons.IH [OF this]
    have "\<forall>k. k < Suc (length (takeWhile (\<lambda>x. x \<noteq> s) ss)) \<longrightarrow> (a # ss) ! k \<noteq> s"
    proof (intro allI impI)
      fix k assume k: "k < Suc (length (takeWhile (\<lambda>x. x \<noteq> s) ss))"
      show "(a # ss) ! k \<noteq> s"
      proof (cases k)
        case 0
        then show ?thesis using False by simp
      next
        case (Suc k')
        then have "k' < length (takeWhile (\<lambda>x. x \<noteq> s) ss)" using k by simp
        then have "ss ! k' \<noteq> s" using IH by blast
        then show ?thesis using Suc by simp
      qed
    qed
    then show ?thesis using False IH by simp
  qed
qed

lemma first_occurrence:
  assumes "s \<in> set ss"
  defines "j \<equiv> length (takeWhile (\<lambda>x. x \<noteq> s) ss)"
  shows "j < length ss" and "ss ! j = s" and "\<forall>k. k < j \<longrightarrow> ss ! k \<noteq> s"
    and "remove1 s ss = take j ss @ drop (Suc j) ss"
  using first_occurrence_aux [OF assms(1)] unfolding j_def by blast+

lemma wf_hist_remove_middle:
  assumes wf: "wf_hist h ss" and j: "Suc j < length ss"
  shows "\<exists>m. memmove (buf h) (length (layout (take j ss)))
              (length (layout (take j ss)) + length (ss ! j) + 1)
              (bufferSize h - (length (layout (take j ss)) + length (ss ! j) + 1)) = Some m
           \<and> wf_hist (h\<lparr>itemsCount := length ss - 1, buf := m\<rparr>) (take j ss @ drop (Suc j) ss)"
proof -
  let ?b = "buf h" and ?p = "length (layout (take j ss))" and ?n = "length (ss ! j)"
  let ?A = "layout (take j ss)" and ?B = "layout (drop (Suc j) ss)"
  define t where "t = drop (length (layout ss)) ?b"
  have j0: "j < length ss" using j by simp
  have le: "length (layout ss) \<le> length ?b"
    and tk: "take (length (layout ss)) ?b = layout ss"
    and al: "list_all (\<lambda>s. s \<noteq> [] \<and> NUL \<notin> set s) ss"
    and L: "length ?b < 65536"
    using wf by (simp_all add: wf_hist_def)
  have sp: "layout ss = ?A @ (ss ! j) @ NUL # ?B" by (rule layout_split [OF j0])
  have b0: "?b = layout ss @ t"
    unfolding t_def using append_take_drop_id [of "length (layout ss)" ?b] tk by metis
  have b: "?b = ?A @ (ss ! j) @ NUL # ?B @ t"
    using b0 sp by simp
  have len: "length ?b = ?p + ?n + 1 + length ?B + length t"
    using arg_cong [OF b, of length] by simp
  have dr: "drop (?p + ?n + 1) ?b = ?B @ t"
  proof -
    have "drop (?p + ?n + 1) (?A @ (ss ! j) @ NUL # ?B @ t) = ?B @ t" by simp
    then show ?thesis using b by simp
  qed
  have tp: "take ?p ?b = ?A"
  proof -
    have "take ?p (?A @ (ss ! j) @ NUL # ?B @ t) = ?A" by simp
    then show ?thesis using b by simp
  qed
  let ?m = "?A @ (?B @ t) @ drop (?p + (length ?B + length t)) ?b"
  have rd: "mem_read ?b (?p + ?n + 1) (bufferSize h - (?p + ?n + 1)) = Some (?B @ t)"
    using len dr by (simp add: mem_read_def bufferSize_def)
  have wr: "mem_write ?b ?p (?B @ t) = Some ?m"
    using len tp by (simp add: mem_write_def)
  have mm: "memmove ?b ?p (?p + ?n + 1) (bufferSize h - (?p + ?n + 1)) = Some ?m"
    using rd wr by (simp add: memmove_def)
  have lm: "length ?m = length ?b" using len by simp
  have lay: "layout (take j ss @ drop (Suc j) ss) = ?A @ ?B" by simp
  have "set (take j ss @ drop (Suc j) ss) \<subseteq> set ss"
    using set_take_subset [of j ss] set_drop_subset [of "Suc j" ss] by auto
  then have al2: "list_all (\<lambda>s. s \<noteq> [] \<and> NUL \<notin> set s) (take j ss @ drop (Suc j) ss)"
    using al by (auto simp: list_all_iff)
  have cnt: "length (take j ss @ drop (Suc j) ss) = length ss - 1" using j by simp
  have "wf_hist (h\<lparr>itemsCount := length ss - 1, buf := ?m\<rparr>) (take j ss @ drop (Suc j) ss)"
    unfolding wf_hist_def lay using len L al2 cnt lm by simp
  then show ?thesis using mm by blast
qed

lemma wf_hist_remove:
  assumes wf: "wf_hist h ss"
  shows "\<exists>h'. historyRemove h (Some s) = Some h' \<and> wf_hist h' (remove1 s ss)
           \<and> length (buf h') = length (buf h) \<and> current h' = current h"
proof (cases "s \<in> set ss")
  case False
  then have r: "remove1 s ss = ss" by (simp add: remove1_idem)
  have c: "itemsCount h = length ss" using wf by (simp add: wf_hist_def)
  have "\<forall>k. 1 - 1 \<le> k \<and> k < length ss \<longrightarrow> ss ! k \<noteq> s" using False by auto
  then have "historyRemove_loop h s 1 = Some (None, Suc (length ss))"
    by (rule historyRemove_loop_absent [OF wf]) simp_all
  then have "historyRemove h (Some s) = Some h" by (simp add: historyRemove_def)
  then show ?thesis using wf r by simp
next
  case True
  define j where "j = length (takeWhile (\<lambda>x. x \<noteq> s) ss)"
  note F = first_occurrence [OF True, folded j_def]
  have c: "itemsCount h = length ss" using wf by (simp add: wf_hist_def)
  have n0: "itemsCount h \<noteq> 0" using c F(1) by (cases ss) simp_all
  have "\<forall>k. 1 - 1 \<le> k \<and> k < j \<longrightarrow> ss ! k \<noteq> s" using F(3) by simp
  then have loop: "historyRemove_loop h s 1 = Some (Some (length (layout (take j ss))), Suc j)"
    by (rule historyRemove_loop_found [OF wf F(1) F(2)]) simp_all
  show ?thesis
  proof (cases "Suc j = length ss")
    case last: True
    have "historyRemove h (Some s) = Some (h\<lparr>itemsCount := itemsCount h - 1\<rparr>)"
      using n0 loop last c by (simp add: historyRemove_def Let_def)
    moreover have "wf_hist (h\<lparr>itemsCount := length ss - 1\<rparr>) (take (length ss - 1) ss)"
      by (rule wf_hist_take [OF wf]) simp
    moreover have "j = length ss - 1" using last by simp
    then have "remove1 s ss = take (length ss - 1) ss" using F(4) last by simp
    ultimately show ?thesis using c by simp
  next
    case mid: False
    then have j1: "Suc j < length ss" using F(1) by simp
    from wf_hist_remove_middle [OF wf j1] obtain m where
      mm: "memmove (buf h) (length (layout (take j ss)))
              (length (layout (take j ss)) + length (ss ! j) + 1)
              (bufferSize h - (length (layout (take j ss)) + length (ss ! j) + 1)) = Some m"
      and w: "wf_hist (h\<lparr>itemsCount := length ss - 1, buf := m\<rparr>) (take j ss @ drop (Suc j) ss)"
      by blast
    have sl: "strlen (buf h) (length (layout (take j ss))) = Some (length (ss ! j))"
      using wf_hist_c_str [OF wf F(1)] by (simp add: strlen_def)
    have lm: "length m = length (buf h)"
      using mm by (auto simp: memmove_def mem_read_def mem_write_def bufferSize_def
          split: if_splits Option.bind_splits)
    have "historyRemove h (Some s) = Some (h\<lparr>itemsCount := length ss - 1, buf := m\<rparr>)"
      using n0 loop mid c sl mm by (simp add: historyRemove_def Let_def bufferSize_def)
    then show ?thesis using w F(4) lm by simp
  qed
qed

subsection \<open>Eviction and insertion\<close>

lemma wf_hist_evict:
  assumes wf: "wf_hist h ss"
  shows "\<exists>m u'. m \<le> length ss \<and> historyPut_evict h len u = Some (h\<lparr>itemsCount := m\<rparr>, u')
           \<and> (0 < m \<longrightarrow> u' = length (layout (take m ss)) \<and> u' + len + 1 \<le> length (buf h))
           \<and> (length (layout ss) + len + 1 \<le> length (buf h) \<longrightarrow> m = length ss)"
  using wf
proof (induction "length ss" arbitrary: h ss u)
  case 0
  then have c: "itemsCount h = 0" by (simp add: wf_hist_def)
  have "historyPut_evict h len u = Some (h, u)"
    by (subst historyPut_evict.simps) (simp add: c)
  moreover have "h\<lparr>itemsCount := 0\<rparr> = h" using c by simp
  ultimately show ?case using 0 by auto
next
  case (Suc n)
  note wf = Suc.prems
  have N: "length ss = Suc n" using Suc.hyps(2) by simp
  have c: "itemsCount h = Suc n" using wf N by (simp add: wf_hist_def)
  have k: "n < length ss" using N by simp
  have g: "historyGet h (Suc n) = Some (Some (length (layout (take n ss))))"
    using wf_hist_get(1) [OF wf, of "Suc n"] N by simp
  have sl: "strlen (buf h) (length (layout (take n ss))) = Some (length (ss ! n))"
    using wf_hist_c_str [OF wf k] by (simp add: strlen_def)
  have "layout (take (Suc n) ss) = layout (take n ss) @ (ss ! n) @ [NUL]"
    by (rule layout_take_Suc [OF k])
  then have used: "length (layout (take n ss)) + length (ss ! n) + 1 = length (layout ss)"
    using N by simp
  have le: "length (layout ss) \<le> length (buf h)" using wf by (simp add: wf_hist_def)
  show ?case
  proof (cases "len + 1 \<le> bufferSize h - length (layout ss)")
    case True
    have "historyPut_evict h len u = Some (h, length (layout ss))"
      apply (subst historyPut_evict.simps)
      using c g sl used True by simp
    moreover have "h\<lparr>itemsCount := Suc n\<rparr> = h" using c by simp
    moreover have "length (layout ss) + len + 1 \<le> length (buf h)"
      using True le by (simp add: bufferSize_def)
    ultimately have "Suc n \<le> length ss \<and> historyPut_evict h len u = Some (h\<lparr>itemsCount := Suc n\<rparr>, length (layout ss))
           \<and> (0 < Suc n \<longrightarrow> length (layout ss) = length (layout (take (Suc n) ss)) \<and> length (layout ss) + len + 1 \<le> length (buf h))
           \<and> (length (layout ss) + len + 1 \<le> length (buf h) \<longrightarrow> Suc n = length ss)"
      using N by simp
    then show ?thesis by blast
  next
    case False
    have step: "historyPut_evict h len u
        = historyPut_evict (h\<lparr>itemsCount := n\<rparr>) len (length (layout ss))"
      apply (subst historyPut_evict.simps)
      using c g sl used False by simp
    have wf2: "wf_hist (h\<lparr>itemsCount := n\<rparr>) (take n ss)"
      by (rule wf_hist_take [OF wf]) (use N in simp)
    have n: "n = length (take n ss)" using N by simp
    from Suc.hyps(1) [OF n wf2, of "length (layout ss)"] obtain m u' where
      m: "m \<le> length (take n ss)"
      and e: "historyPut_evict (h\<lparr>itemsCount := n\<rparr>) len (length (layout ss))
                = Some (h\<lparr>itemsCount := n\<rparr>\<lparr>itemsCount := m\<rparr>, u')"
      and u: "0 < m \<longrightarrow> u' = length (layout (take m (take n ss)))
                \<and> u' + len + 1 \<le> length (buf (h\<lparr>itemsCount := n\<rparr>))"
      by blast
    have mn: "m \<le> n" using m N by simp
    then have tt: "take m (take n ss) = take m ss" by (simp add: min_def)
    have nf: "\<not> length (layout ss) + len + 1 \<le> length (buf h)"
      using False by (simp add: bufferSize_def)
    have "m \<le> length ss \<and> historyPut_evict h len u = Some (h\<lparr>itemsCount := m\<rparr>, u')
           \<and> (0 < m \<longrightarrow> u' = length (layout (take m ss)) \<and> u' + len + 1 \<le> length (buf h))
           \<and> (length (layout ss) + len + 1 \<le> length (buf h) \<longrightarrow> m = length ss)"
      using mn N step e u tt nf by auto
    then show ?thesis by blast
  qed
qed

lemma wf_hist_insert:
  assumes wf: "wf_hist h ss" and s: "s \<noteq> []" "NUL \<notin> set s"
    and m: "0 < length ss" and fit: "length (layout ss) + length s + 1 \<le> length (buf h)"
  shows "\<exists>m1 m2. memmove (buf h) (length s + 1) 0 (length (layout ss)) = Some m1
           \<and> mem_write m1 0 (s @ [NUL]) = Some m2
           \<and> wf_hist (h\<lparr>buf := m2, itemsCount := Suc (length ss)\<rparr>) (s # ss)"
proof -
  let ?b = "buf h" and ?U = "length (layout ss)" and ?n = "length s"
  have le: "?U \<le> length ?b"
    and tk: "take ?U ?b = layout ss"
    and al: "list_all (\<lambda>s. s \<noteq> [] \<and> NUL \<notin> set s) ss"
    and L: "length ?b < 65536"
    using wf by (simp_all add: wf_hist_def)
  let ?m1 = "take (?n + 1) ?b @ layout ss @ drop (?n + 1 + ?U) ?b"
  let ?m2 = "(s @ [NUL]) @ layout ss @ drop (?n + 1 + ?U) ?b"
  have rd: "mem_read ?b 0 ?U = Some (layout ss)" using le tk by (simp add: mem_read_def)
  have wr: "mem_write ?b (?n + 1) (layout ss) = Some ?m1"
    using fit by (simp add: mem_write_def add.commute add.left_commute)
  have mm: "memmove ?b (?n + 1) 0 ?U = Some ?m1" using rd wr by (simp add: memmove_def)
  have l1: "length (take (?n + 1) ?b) = ?n + 1" using fit by simp
  have d: "drop (?n + 1) ?m1 = layout ss @ drop (?n + 1 + ?U) ?b"
    using l1 by simp
  have lm1: "length ?m1 = length ?b" using fit by simp
  have "mem_write ?m1 0 (s @ [NUL]) = Some (take 0 ?m1 @ (s @ [NUL]) @ drop (0 + length (s @ [NUL])) ?m1)"
    unfolding mem_write_def using lm1 fit by simp
  then have w2: "mem_write ?m1 0 (s @ [NUL]) = Some ?m2" using d by simp
  have lm2: "length ?m2 = length ?b" using fit by simp
  have lay: "layout (s # ss) = s @ NUL # layout ss" by simp
  have "wf_hist (h\<lparr>buf := ?m2, itemsCount := Suc (length ss)\<rparr>) (s # ss)"
    unfolding wf_hist_def lay using fit L al s lm2 by simp
  then show ?thesis using mm w2 by blast
qed

lemma wf_hist_insert_first:
  assumes L: "length (buf h) < 65536" and s: "s \<noteq> []" "NUL \<notin> set s"
    and fit: "length s + 1 \<le> length (buf h)"
  shows "\<exists>m2. mem_write (buf h) 0 (s @ [NUL]) = Some m2
           \<and> wf_hist (h\<lparr>buf := m2, itemsCount := Suc 0\<rparr>) [s]"
proof -
  let ?m2 = "(s @ [NUL]) @ drop (length s + 1) (buf h)"
  have "mem_write (buf h) 0 (s @ [NUL]) = Some (take 0 (buf h) @ (s @ [NUL]) @ drop (0 + length (s @ [NUL])) (buf h))"
    unfolding mem_write_def using fit by simp
  then have w: "mem_write (buf h) 0 (s @ [NUL]) = Some ?m2" by simp
  have lm2: "length ?m2 = length (buf h)" using fit by simp
  have "wf_hist (h\<lparr>buf := ?m2, itemsCount := Suc 0\<rparr>) [s]"
    unfolding wf_hist_def using fit L s lm2 by simp
  then show ?thesis using w by blast
qed

lemma wf_hist_put:
  assumes wf: "wf_hist h ss" and s: "s \<noteq> []" "NUL \<notin> set s"
    and fit: "length s + 1 \<le> bufferSize h"
  shows "\<exists>h' m. m \<le> length (remove1 s ss) \<and> historyPut h s = Some (True, h')
           \<and> wf_hist h' (s # take m (remove1 s ss))
           \<and> (length (layout (remove1 s ss)) + length s + 1 \<le> length (buf h)
                \<longrightarrow> m = length (remove1 s ss))"
proof -
  let ?r = "remove1 s ss"
  from wf_hist_remove [OF wf, of s] obtain h1 where
    rem: "historyRemove h (Some s) = Some h1" and wf1: "wf_hist h1 ?r"
    and l1: "length (buf h1) = length (buf h)"
    by blast
  from wf_hist_evict [OF wf1, of "length s" 0] obtain m u' where
    m: "m \<le> length ?r"
    and ev: "historyPut_evict h1 (length s) 0 = Some (h1\<lparr>itemsCount := m\<rparr>, u')"
    and u: "0 < m \<longrightarrow> u' = length (layout (take m ?r)) \<and> u' + length s + 1 \<le> length (buf h1)"
    and all: "length (layout ?r) + length s + 1 \<le> length (buf h1) \<longrightarrow> m = length ?r"
    by blast
  let ?h2 = "h1\<lparr>itemsCount := m\<rparr>"
  have wf2: "wf_hist ?h2 (take m ?r)" by (rule wf_hist_take [OF wf1 m])
  have lt: "length (take m ?r) = m" using m by simp
  have "2 * length (take m ?r) \<le> length (buf ?h2)" "length (buf ?h2) < 65536"
    by (rule wf_hist_count [OF wf2])+
  then have "m + 1 < 65536" using lt by simp
  then have u16: "u16 (m + 1) = Suc m" by (simp add: u16_id)
  have nf: "\<not> bufferSize h < Suc (length s)" using fit by simp
  have "\<exists>h'. historyPut h s = Some (True, h') \<and> wf_hist h' (s # take m ?r)"
  proof (cases "0 < m")
    case True
    then have u1: "u' = length (layout (take m ?r))"
      and f1: "length (layout (take m ?r)) + length s + 1 \<le> length (buf ?h2)"
      using u by simp_all
    have pos: "0 < length (take m ?r)" using True lt by simp
    from wf_hist_insert [OF wf2 s pos f1] obtain m1 m2 where
      mm: "memmove (buf ?h2) (length s + 1) 0 (length (layout (take m ?r))) = Some m1"
      and mw: "mem_write m1 0 (s @ [NUL]) = Some m2"
      and w: "wf_hist (?h2\<lparr>buf := m2, itemsCount := Suc (length (take m ?r))\<rparr>) (s # take m ?r)"
      by blast
    have "historyPut h s = Some (True, ?h2\<lparr>buf := m2, itemsCount := Suc m\<rparr>)"
      unfolding historyPut_def Let_def using nf rem ev True u1 mm mw u16 by simp
    then show ?thesis using w lt by simp
  next
    case False
    then have m0: "m = 0" by simp
    have L: "length (buf ?h2) < 65536" using wf2 by (simp add: wf_hist_def)
    have f1: "length s + 1 \<le> length (buf ?h2)" using fit l1 by (simp add: bufferSize_def)
    from wf_hist_insert_first [OF L s f1] obtain m2 where
      mw: "mem_write (buf ?h2) 0 (s @ [NUL]) = Some m2"
      and w: "wf_hist (?h2\<lparr>buf := m2, itemsCount := Suc 0\<rparr>) [s]"
      by blast
    have "historyPut h s = Some (True, ?h2\<lparr>buf := m2, itemsCount := Suc 0\<rparr>)"
      unfolding historyPut_def Let_def using nf rem ev m0 mw u16 by simp
    then show ?thesis using w m0 by simp
  qed
  then show ?thesis using m all l1 by auto
qed

lemma wf_hist_items:
  assumes wf: "wf_hist h ss"
  shows "map (history_item h) [1..<Suc (itemsCount h)] = map Some ss"
proof (rule nth_equalityI)
  have c: "itemsCount h = length ss" using wf by (simp add: wf_hist_def)
  show "length (map (history_item h) [1..<Suc (itemsCount h)]) = length (map Some ss)"
    using c by (simp del: upt_Suc)
  fix i assume "i < length (map (history_item h) [1..<Suc (itemsCount h)])"
  then have i: "i < length ss" using c by (simp del: upt_Suc)
  have "[1..<Suc (length ss)] ! i = 1 + i" by (rule nth_upt) (use i in simp)
  then have "[1..<Suc (itemsCount h)] ! i = Suc i" using c by (simp del: upt_Suc)
  moreover have "history_item h (Suc i) = Some (ss ! i)"
    using wf_hist_get(2) [OF wf, of "Suc i"] i by simp
  ultimately show "map (history_item h) [1..<Suc (itemsCount h)] ! i = map Some ss ! i"
    using i c by (simp del: upt_Suc)
qed

lemma layout_remove1:
  assumes "s \<in> set ss"
  shows "length (layout (remove1 s ss)) + length s + 1 = length (layout ss)"
proof -
  define j where "j = length (takeWhile (\<lambda>x. x \<noteq> s) ss)"
  note F = first_occurrence [OF assms, folded j_def]
  have "layout ss = layout (take j ss) @ (ss ! j) @ NUL # layout (drop (Suc j) ss)"
    by (rule layout_split [OF F(1)])
  then have "length (layout ss) = length (layout (take j ss)) + length s + 1 + length (layout (drop (Suc j) ss))"
    using F(2) by simp
  moreover have "layout (remove1 s ss) = layout (take j ss) @ layout (drop (Suc j) ss)"
    using F(4) by simp
  ultimately show ?thesis by simp
qed

subsection \<open>Putting non-empty strings keeps a history well formed\<close>

lemma wf_hist_puts:
  assumes "wf_hist h items" and "list_all (\<lambda>s. s \<noteq> [] \<and> NUL \<notin> set s) ss"
  shows "\<exists>h' items'. historyPuts h ss = Some h' \<and> wf_hist h' items'"
  using assms
proof (induction ss arbitrary: h items)
  case Nil
  then show ?case by auto
next
  case (Cons s ss)
  then have s: "s \<noteq> []" "NUL \<notin> set s" and rest: "list_all (\<lambda>s. s \<noteq> [] \<and> NUL \<notin> set s) ss"
    by simp_all
  show ?case
  proof (cases "length s + 1 \<le> bufferSize h")
    case True
    from wf_hist_put [OF Cons.prems(1) s True] obtain h1 m where
      p: "historyPut h s = Some (True, h1)" and w: "wf_hist h1 (s # take m (remove1 s items))"
      by blast
    from Cons.IH [OF w rest] show ?thesis using p by simp
  next
    case False
    then have p: "historyPut h s = Some (False, h)" by (simp add: historyPut_def)
    from Cons.IH [OF Cons.prems(1) rest] show ?thesis using p by simp
  qed
qed

lemma wf_hist_empty:
  "itemsCount h = 0 \<Longrightarrow> length (buf h) < 65536 \<Longrightarrow> wf_hist h []"
  by (simp add: wf_hist_def)

subsection \<open>The most recent item\<close>

lemma example_history_wf: "wf_hist example_history [''c'', ''ab'']"
  by (simp add: wf_hist_def example_history_def)




text \<open>
  C5. On a well-formed history that holds \<open>s\<close>, \<^verbatim>\<open>historyPut\<close> of \<open>s\<close> returns
  \<^verbatim>\<open>true\<close> and leaves \<^verbatim>\<open>itemsCount\<close> as it was: the history then holds \<open>s\<close>
  followed by all the other items in their old order (the first copy of \<open>s\<close> removed,
  nothing evicted), and \<^verbatim>\<open>historyGet\<close> returns exactly these.
\<close>

theorem history_put_present_keeps_count:
  assumes "wf_hist h items" and "s \<in> set items"
  shows "\<exists>h'. historyPut h s = Some (True, h')
           \<and> itemsCount h' = itemsCount h
           \<and> wf_hist h' (s # remove1 s items)
           \<and> map (history_item h') [1..<Suc (itemsCount h')] = map Some (s # remove1 s items)"
proof -
  have al: "list_all (\<lambda>s. s \<noteq> [] \<and> NUL \<notin> set s) items"
    and le: "length (layout items) \<le> length (buf h)"
    and c: "itemsCount h = length items"
    using assms(1) by (simp_all add: wf_hist_def)
  have s: "s \<noteq> []" "NUL \<notin> set s" using al assms(2) by (auto simp: list_all_iff)
  have lr: "length (layout (remove1 s items)) + length s + 1 = length (layout items)"
    by (rule layout_remove1 [OF assms(2)])
  then have room: "length (layout (remove1 s items)) + length s + 1 \<le> length (buf h)"
    using le by simp
  then have fit: "length s + 1 \<le> bufferSize h" by (simp add: bufferSize_def)
  from wf_hist_put [OF assms(1) s fit] room obtain h' m where
    p: "historyPut h s = Some (True, h')" and w: "wf_hist h' (s # take m (remove1 s items))"
    and m: "m = length (remove1 s items)"
    by blast
  have w2: "wf_hist h' (s # remove1 s items)" using w m by simp
  have "itemsCount h' = length (s # remove1 s items)" using w2 by (simp add: wf_hist_def)
  also have "\<dots> = length items"
  proof -
    have "0 < length items" using assms(2) by (cases items) simp_all
    then show ?thesis using assms(2) by (simp add: length_remove1)
  qed
  finally have "itemsCount h' = itemsCount h" using c by simp
  then show ?thesis using p w2 wf_hist_items [OF w2] by blast
qed

theorem history_put_present_keeps_count_witness:
  "wf_hist example_history [''c'', ''ab''] \<and> ''ab'' \<in> set [''c'', ''ab'']
   \<and> (\<exists>h'. historyPut example_history ''ab'' = Some (True, h')
           \<and> itemsCount h' = itemsCount example_history
           \<and> wf_hist h' (''ab'' # remove1 ''ab'' [''c'', ''ab''])
           \<and> map (history_item h') [1..<Suc (itemsCount h')]
               = map Some (''ab'' # remove1 ''ab'' [''c'', ''ab'']))"
proof -
  have a: "''ab'' \<in> set [''c'', ''ab'']" by simp
  show ?thesis
    using history_put_present_keeps_count [OF example_history_wf a] example_history_wf a by blast
qed

end
